theory Spec2Isabelle
  imports Complex_Main "HOL-Library.Stream"
begin

section \<open>Coral growth simulation (img\_coral.py)\<close>

text \<open>
  A shallow embedding of the simulation core of \<^verbatim>\<open>img_coral.py\<close>: the class
  \<^verbatim>\<open>CoralCell\<close>, the function \<^verbatim>\<open>get_random_hue\<close> and the class \<^verbatim>\<open>Board\<close>.
  Python integers are \<open>int\<close>. Python floats (the probabilities) are idealised as \<open>real\<close>:
  the code only multiplies, adds and compares them. Every exception the code can raise is
  a value of \<open>error\<close>, and every function that can raise returns \<open>error + 'a\<close>
  (\<open>Inl\<close> is the exception). The mutable board is a record that is passed in and
  returned updated; after an exception the partially updated board is not returned.
\<close>

subsection \<open>Exceptions\<close>

datatype error = IndexError | ValueError | ZeroDivisionError

definition ebind :: "error + 'a \<Rightarrow> ('a \<Rightarrow> error + 'b) \<Rightarrow> error + 'b" where
  "ebind m f = (case m of Inl e \<Rightarrow> Inl e | Inr x \<Rightarrow> f x)"

subsection \<open>The random source\<close>

text \<open>
  The module-level generator of Python's \<^verbatim>\<open>random\<close> is an explicit state \<open>rng\<close>:
  an infinite tape of reals, one entry consumed by each call. \<^verbatim>\<open>random()\<close> returns
  a float in the half-open interval from 0 to 1: the fractional part of the next entry, so
  that exactly the values of that interval can be drawn, whatever the tape holds.
  \<^verbatim>\<open>randrange\<close> and \<^verbatim>\<open>choice\<close> scale one such draw to an index
  (\<open>randbelow\<close>), which makes every index possible. \<^verbatim>\<open>randrange\<close> raises
  \<^verbatim>\<open>ValueError\<close> on an empty range and \<^verbatim>\<open>choice\<close> raises \<^verbatim>\<open>IndexError\<close>
  on an empty sequence.
\<close>

type_synonym rng = "real stream"

definition random :: "rng \<Rightarrow> real \<times> rng" where
  "random g = (frac (shd g), stl g)"

definition randbelow :: "int \<Rightarrow> rng \<Rightarrow> int \<times> rng" where
  "randbelow n g = (\<lfloor>fst (random g) * of_int n\<rfloor>, snd (random g))"

definition randrange :: "int \<Rightarrow> int \<Rightarrow> rng \<Rightarrow> error + (int \<times> rng)" where
  "randrange start stop g =
     (if stop - start \<le> 0 then Inl ValueError
      else Inr (start + fst (randbelow (stop - start) g), snd (randbelow (stop - start) g)))"

definition choice :: "'a list \<Rightarrow> rng \<Rightarrow> error + ('a \<times> rng)" where
  "choice xs g =
     (if xs = [] then Inl IndexError
      else Inr (xs ! nat (fst (randbelow (int (length xs)) g)),
                snd (randbelow (int (length xs)) g)))"

subsection \<open>Python sequences\<close>

text \<open>
  Subscription of a list of length \<open>n\<close> accepts the indices from \<open>- n\<close> up to \<open>n - 1\<close>,
  the negative ones counting from the end, and raises \<^verbatim>\<open>IndexError\<close> otherwise.
  \<^verbatim>\<open>%\<close> raises \<^verbatim>\<open>ZeroDivisionError\<close> on a zero divisor and otherwise takes the
  sign of the divisor, as \<open>mod\<close> on \<open>int\<close> does.
\<close>

definition py_index :: "nat \<Rightarrow> int \<Rightarrow> error + nat" where
  "py_index n i =
     (if 0 \<le> i \<and> i < int n then Inr (nat i)
      else if - int n \<le> i \<and> i < 0 then Inr (nat (int n + i))
      else Inl IndexError)"

definition list_get :: "'a list \<Rightarrow> int \<Rightarrow> error + 'a" where
  "list_get xs i = ebind (py_index (length xs) i) (\<lambda>k. Inr (xs ! k))"

definition list_set :: "'a list \<Rightarrow> int \<Rightarrow> 'a \<Rightarrow> error + 'a list" where
  "list_set xs i v = ebind (py_index (length xs) i) (\<lambda>k. Inr (xs[k := v]))"

definition py_mod :: "int \<Rightarrow> int \<Rightarrow> error + int" where
  "py_mod a b = (if b = 0 then Inl ZeroDivisionError else Inr (a mod b))"

subsection \<open>CoralCell\<close>

record cell =
  hue :: int
  brightness :: int

definition get_random_hue :: "rng \<Rightarrow> error + (int \<times> rng)" where
  "get_random_hue g = ebind (randrange (- 60) 200 g) (\<lambda>(k, g'). Inr (k mod 360, g'))"

text \<open>
  \<^verbatim>\<open>get_child\<close> builds a new \<^verbatim>\<open>CoralCell\<close> and assigns no attribute of
  \<^verbatim>\<open>self\<close>. The condition \<^verbatim>\<open>self.brightness < 100 and random() < p_brighter\<close>
  short-circuits: \<^verbatim>\<open>random()\<close> is called only when the brightness is below 100.
\<close>

definition get_child :: "cell \<Rightarrow> int \<Rightarrow> real \<Rightarrow> rng \<Rightarrow> error + (cell \<times> rng)" where
  "get_child self hue_diff p_brighter g =
     ebind (randrange (- hue_diff) (hue_diff + 1) g) (\<lambda>(off, g1).
       let new_hue = (hue self + off) mod 360 in
       if brightness self < 100
       then (let (u, g2) = random g1 in
             if u < p_brighter
             then Inr (\<lparr>hue = new_hue, brightness = brightness self + 1\<rparr>, g2)
             else Inr (\<lparr>hue = new_hue, brightness = brightness self\<rparr>, g2))
       else Inr (\<lparr>hue = new_hue, brightness = brightness self\<rparr>, g1))"

subsection \<open>Board\<close>

text \<open>
  \<^verbatim>\<open>cells\<close> is a list of rows; an empty slot (\<^verbatim>\<open>None\<close>) is \<open>None\<close>. The rows are
  built by separate list constructions, so no two rows are the same object. The attribute
  \<^verbatim>\<open>done\<close> is the field \<open>done_flag\<close>.
\<close>

record board =
  nb_rows :: int
  nb_cols :: int
  cells :: "cell option list list"
  step_nb :: int
  done_flag :: bool
  drifters :: "(int \<times> int) list"
  hue_diff :: int
  p_brightness :: real
  p_down :: real
  p_right :: real

definition make_drifter :: "board \<Rightarrow> rng \<Rightarrow> error + ((int \<times> int) \<times> rng)" where
  "make_drifter self g = ebind (randrange 0 (nb_cols self) g) (\<lambda>(k, g'). Inr ((0, k), g'))"

text \<open>The comprehension \<^verbatim>\<open>[ self.make_drifter() for _ in range(nb_drifters) ]\<close>.\<close>

fun make_drifters :: "board \<Rightarrow> nat \<Rightarrow> rng \<Rightarrow> error + ((int \<times> int) list \<times> rng)" where
  "make_drifters self 0 g = Inr ([], g)"
| "make_drifters self (Suc k) g =
     ebind (make_drifter self g) (\<lambda>(d, g1).
     ebind (make_drifters self k g1) (\<lambda>(ds, g2). Inr (d # ds, g2)))"

text \<open>
  \<^verbatim>\<open>__init__\<close> assigns the attributes in the order of the source; \<^verbatim>\<open>make_drifter\<close>
  reads \<^verbatim>\<open>nb_cols\<close> only, so the attributes assigned after the drifters hold
  placeholders while the drifters are made. \<^verbatim>\<open>range\<close> and list repetition of a
  negative number are empty. The only operation that can raise is the division by
  \<^verbatim>\<open>self.nb_rows\<close>.
\<close>

definition Board_init ::
  "int \<Rightarrow> int \<Rightarrow> int \<Rightarrow> real \<Rightarrow> real \<Rightarrow> real \<Rightarrow> rng \<Rightarrow> error + (board \<times> rng)" where
  "Board_init nr nc hdiff p_br down_bias right_bias g =
     (let self = \<lparr>nb_rows = nr, nb_cols = nc,
                  cells = replicate (nat nr) (replicate (nat nc) None),
                  step_nb = 0, done_flag = False, drifters = [],
                  hue_diff = hdiff, p_brightness = 0, p_down = 0, p_right = 0\<rparr>
      in ebind (make_drifters self (nat nc) g) (\<lambda>(ds, g1).
         if nr = 0 then Inl ZeroDivisionError
         else Inr (self\<lparr>drifters := ds,
                        p_brightness := p_br * 100 / of_int nr,
                        p_down := 0.25 + 0.75 * down_bias,
                        p_right := 0.5 + right_bias / 2\<rparr>, g1)))"

text \<open>Reading and writing \<^verbatim>\<open>self.cells[row][col]\<close>.\<close>

definition cell_at :: "board \<Rightarrow> int \<Rightarrow> int \<Rightarrow> error + cell option" where
  "cell_at self row col = ebind (list_get (cells self) row) (\<lambda>r. list_get r col)"

definition set_cell :: "board \<Rightarrow> int \<Rightarrow> int \<Rightarrow> cell \<Rightarrow> error + board" where
  "set_cell self row col c =
     ebind (list_get (cells self) row) (\<lambda>r.
     ebind (list_set r col (Some c)) (\<lambda>r'.
     ebind (list_set (cells self) row r') (\<lambda>cs. Inr (self\<lparr>cells := cs\<rparr>))))"

text \<open>\<^verbatim>\<open>if cell: neighbours.append(cell)\<close>: a \<^verbatim>\<open>CoralCell\<close> is always true.\<close>

definition append_cell :: "cell list \<Rightarrow> cell option \<Rightarrow> cell list" where
  "append_cell neighbours c = (case c of None \<Rightarrow> neighbours | Some x \<Rightarrow> neighbours @ [x])"

text \<open>
  The list \<^verbatim>\<open>neighbours\<close> that \<^verbatim>\<open>get_coral_neighbour\<close> has collected when it
  reaches \<^verbatim>\<open>if neighbours\<close>. In \<^verbatim>\<open>self.cells[row][(col-1) % self.nb_cols]\<close> the
  row is read before the column index is computed.
\<close>

definition coral_neighbours :: "board \<Rightarrow> int \<Rightarrow> int \<Rightarrow> error + cell list" where
  "coral_neighbours self row col =
     ebind (if row > 0
            then ebind (cell_at self (row - 1) col) (\<lambda>c. Inr (append_cell [] c))
            else Inr []) (\<lambda>n1.
     ebind (if row < nb_rows self - 1
            then ebind (cell_at self (row + 1) col) (\<lambda>c. Inr (append_cell n1 c))
            else Inr n1) (\<lambda>n2.
     ebind (list_get (cells self) row) (\<lambda>r.
     ebind (py_mod (col - 1) (nb_cols self)) (\<lambda>left.
     ebind (list_get r left) (\<lambda>c.
     let n3 = append_cell n2 c in
     ebind (list_get (cells self) row) (\<lambda>r'.
     ebind (py_mod (col + 1) (nb_cols self)) (\<lambda>right.
     ebind (list_get r' right) (\<lambda>c'. Inr (append_cell n3 c')))))))))"

definition get_coral_neighbour :: "board \<Rightarrow> int \<Rightarrow> int \<Rightarrow> rng \<Rightarrow> error + (cell option \<times> rng)" where
  "get_coral_neighbour self row col g =
     ebind (coral_neighbours self row col) (\<lambda>neighbours.
       if neighbours \<noteq> []
       then ebind (choice neighbours g) (\<lambda>(c, g'). Inr (Some c, g'))
       else Inr (None, g))"

text \<open>
  In \<^verbatim>\<open>drift\<close> each \<^verbatim>\<open>and\<close> short-circuits: \<^verbatim>\<open>random()\<close> is called only when
  the test on the row holds.
\<close>

definition drift :: "board \<Rightarrow> int \<Rightarrow> int \<Rightarrow> rng \<Rightarrow> error + ((int \<times> int) \<times> rng)" where
  "drift self row col g =
     (let (down, g1) = (if row < nb_rows self - 1
                        then (let (u, g') = random g in (u < p_down self, g'))
                        else (False, g)) in
      if down then Inr ((row + 1, col), g1)
      else
        let (up, g2) = (if row > 0
                        then (let (u, g') = random g1 in (u < 0.333, g'))
                        else (False, g1)) in
        if up then Inr ((row - 1, col), g2)
        else
          let (u, g3) = random g2 in
          if u < p_right self
          then ebind (py_mod (col + 1) (nb_cols self)) (\<lambda>c. Inr ((row, c), g3))
          else ebind (py_mod (col - 1) (nb_cols self)) (\<lambda>c. Inr ((row, c), g3)))"

definition drifter_step ::
  "board \<Rightarrow> int \<Rightarrow> int \<Rightarrow> rng \<Rightarrow> error + ((int \<times> int) \<times> board \<times> rng)" where
  "drifter_step self row col g =
     ebind (get_coral_neighbour self row col g) (\<lambda>(neighbour, g1).
       case neighbour of
         Some n \<Rightarrow>
           ebind (get_child n (hue_diff self) (p_brightness self) g1) (\<lambda>(c, g2).
           ebind (set_cell self row col c) (\<lambda>self1.
           let self2 = (if row = 0 then self1\<lparr>done_flag := True\<rparr> else self1) in
           ebind (make_drifter self2 g2) (\<lambda>(d, g3). Inr (d, self2, g3))))
       | None \<Rightarrow>
           if row = nb_rows self - 1
           then ebind (get_random_hue g1) (\<lambda>(h, g2).
                ebind (set_cell self row col \<lparr>hue = h, brightness = 0\<rparr>) (\<lambda>self1.
                ebind (make_drifter self1 g2) (\<lambda>(d, g3). Inr (d, self1, g3))))
           else ebind (drift self row col g1) (\<lambda>(d, g2). Inr (d, self, g2)))"

text \<open>
  The comprehension \<^verbatim>\<open>[ self.drifter_step(row, col) for (row, col) in self.drifters ]\<close>:
  the drifters are processed in list order, each call on the board the previous call left.
\<close>

fun drifter_steps ::
  "board \<Rightarrow> (int \<times> int) list \<Rightarrow> rng \<Rightarrow> error + ((int \<times> int) list \<times> board \<times> rng)" where
  "drifter_steps self [] g = Inr ([], self, g)"
| "drifter_steps self ((row, col) # ds) g =
     ebind (drifter_step self row col g) (\<lambda>(d, self1, g1).
     ebind (drifter_steps self1 ds g1) (\<lambda>(ds', self2, g2). Inr (d # ds', self2, g2)))"

definition step :: "board \<Rightarrow> rng \<Rightarrow> error + (board \<times> rng)" where
  "step self g =
     (let self1 = self\<lparr>step_nb := step_nb self + 1\<rparr> in
      ebind (drifter_steps self1 (drifters self1) g) (\<lambda>(ds, self2, g1).
        Inr (self2\<lparr>drifters := ds\<rparr>, g1)))"

text \<open>\<open>n\<close> successive calls of \<^verbatim>\<open>step\<close>, as a driver makes them.\<close>

fun steps :: "nat \<Rightarrow> board \<Rightarrow> rng \<Rightarrow> error + (board \<times> rng)" where
  "steps 0 self g = Inr (self, g)"
| "steps (Suc n) self g = ebind (step self g) (\<lambda>(self1, g1). steps n self1 g1)"


subsection \<open>Snapshots\<close>

text \<open>
  The image library is outside the program. An image is a list of rows of pixels, and
  \<^verbatim>\<open>px[col, row]\<close> is indexed as a Python sequence is. \<^verbatim>\<open>Image.new\<close> refuses a
  negative size, and \<^verbatim>\<open>ImageColor.getrgb\<close> accepts in \<^verbatim>\<open>hsv(h, 100%, v%)\<close>
  only unsigned numbers, so a negative hue or brightness, printed with a sign, raises
  \<^verbatim>\<open>ValueError\<close>. The colour itself is kept as the pair of hue and brightness.
\<close>

datatype pixel = Background | Hsv int int | White

definition py_range :: "int \<Rightarrow> int list" where
  "py_range n = map int [0..<nat n]"

fun emap :: "('a \<Rightarrow> error + 'b) \<Rightarrow> 'a list \<Rightarrow> error + 'b list" where
  "emap f [] = Inr []"
| "emap f (x # xs) = ebind (f x) (\<lambda>y. ebind (emap f xs) (\<lambda>ys. Inr (y # ys)))"

fun efold :: "('a \<Rightarrow> 's \<Rightarrow> error + 's) \<Rightarrow> 'a list \<Rightarrow> 's \<Rightarrow> error + 's" where
  "efold f [] s = Inr s"
| "efold f (x # xs) s = ebind (f x s) (efold f xs)"

definition print_cell :: "board \<Rightarrow> int \<Rightarrow> int \<Rightarrow> error + char" where
  "print_cell self row col =
     (if (row, col) \<in> set (drifters self) then Inr (CHR ''.'')
      else ebind (cell_at self row col) (\<lambda>c.
        if c \<noteq> None then Inr (CHR ''#'') else Inr (CHR '' '')))"

fun join_lines :: "string list \<Rightarrow> string" where
  "join_lines [] = []"
| "join_lines [l] = l"
| "join_lines (l # ls) = l @ [CHR 0x0A] @ join_lines ls"

definition board_str :: "board \<Rightarrow> error + string" where
  "board_str self =
     ebind (emap (\<lambda>row. emap (\<lambda>col. print_cell self row col) (py_range (nb_cols self)))
              (py_range (nb_rows self)))
       (\<lambda>ls. Inr (join_lines ls))"

definition image_new :: "int \<Rightarrow> int \<Rightarrow> pixel \<Rightarrow> error + pixel list list" where
  "image_new width height colour =
     (if width < 0 \<or> height < 0 then Inl ValueError
      else Inr (replicate (nat height) (replicate (nat width) colour)))"

definition getrgb_hsv :: "int \<Rightarrow> int \<Rightarrow> error + pixel" where
  "getrgb_hsv h v = (if h < 0 \<or> v < 0 then Inl ValueError else Inr (Hsv h v))"

definition px_set :: "pixel list list \<Rightarrow> int \<Rightarrow> int \<Rightarrow> pixel \<Rightarrow> error + pixel list list" where
  "px_set px col row v =
     ebind (list_get px row) (\<lambda>r.
     ebind (list_set r col v) (\<lambda>r'. list_set px row r'))"

definition paint_cell :: "board \<Rightarrow> int \<times> int \<Rightarrow> pixel list list \<Rightarrow> error + pixel list list" where
  "paint_cell self rc px =
     ebind (cell_at self (fst rc) (snd rc)) (\<lambda>cell.
       case cell of
         None \<Rightarrow> Inr px
       | Some c \<Rightarrow> ebind (getrgb_hsv (hue c) (brightness c)) (\<lambda>colour.
                    px_set px (snd rc) (fst rc) colour))"

definition paint_drifter :: "int \<times> int \<Rightarrow> pixel list list \<Rightarrow> error + pixel list list" where
  "paint_drifter rc px = px_set px (snd rc) (fst rc) White"

text \<open>The two nested loops visit the positions row by row, as \<open>List.product\<close> lists them.\<close>

definition print_to_image :: "board \<Rightarrow> bool \<Rightarrow> error + pixel list list" where
  "print_to_image self show_drifters =
     ebind (image_new (nb_cols self) (nb_rows self) Background) (\<lambda>im.
     ebind (efold (paint_cell self)
              (List.product (py_range (nb_rows self)) (py_range (nb_cols self))) im) (\<lambda>px.
     if show_drifters then efold paint_drifter (drifters self) px else Inr px))"

section \<open>Properties\<close>

subsection \<open>Well-formed boards\<close>

text \<open>
  A board as \<^verbatim>\<open>__init__\<close> builds it from positive dimensions: the grid has
  \<open>nb_rows\<close> rows of \<open>nb_cols\<close> slots. A position is in bounds when it names a slot.
\<close>

definition board_ok :: "board \<Rightarrow> bool" where
  "board_ok b \<longleftrightarrow>
     0 < nb_rows b \<and> 0 < nb_cols b \<and> length (cells b) = nat (nb_rows b) \<and>
     list_all (\<lambda>r. length r = nat (nb_cols b)) (cells b)"

definition in_bounds :: "board \<Rightarrow> int \<times> int \<Rightarrow> bool" where
  "in_bounds b d \<longleftrightarrow> 0 \<le> fst d \<and> fst d < nb_rows b \<and> 0 \<le> snd d \<and> snd d < nb_cols b"

text \<open>The slot at a position in bounds, and the grid after a write to such a slot.\<close>

definition grid :: "board \<Rightarrow> int \<Rightarrow> int \<Rightarrow> cell option" where
  "grid b row col = cells b ! nat row ! nat col"

definition grid_upd :: "board \<Rightarrow> int \<Rightarrow> int \<Rightarrow> cell \<Rightarrow> cell option list list" where
  "grid_upd b row col c = (cells b)[nat row := (cells b ! nat row)[nat col := Some c]]"

text \<open>
  The slots that the neighbour lookup reads at a position in bounds, in the order it reads
  them: above, below, left, right. \<open>present\<close> keeps the settled cells of a list of slots.
\<close>

definition vertical_slots :: "board \<Rightarrow> int \<Rightarrow> int \<Rightarrow> cell option list" where
  "vertical_slots b row col =
     (if row > 0 then [grid b (row - 1) col] else []) @
     (if row < nb_rows b - 1 then [grid b (row + 1) col] else [])"

definition neighbour_slots :: "board \<Rightarrow> int \<Rightarrow> int \<Rightarrow> cell option list" where
  "neighbour_slots b row col =
     vertical_slots b row col @
     [grid b row ((col - 1) mod nb_cols b), grid b row ((col + 1) mod nb_cols b)]"

fun present :: "cell option list \<Rightarrow> cell list" where
  "present [] = []"
| "present (None # xs) = present xs"
| "present (Some c # xs) = c # present xs"

text \<open>The ranges of a cell's attributes, and a grid all of whose cells are in them.\<close>

definition cell_ok :: "cell \<Rightarrow> bool" where
  "cell_ok c \<longleftrightarrow> 0 \<le> hue c \<and> hue c < 360 \<and> 0 \<le> brightness c \<and> brightness c \<le> 100"

definition slot_ok :: "cell option \<Rightarrow> bool" where
  "slot_ok s = (case s of None \<Rightarrow> True | Some c \<Rightarrow> cell_ok c)"

definition cells_ok :: "board \<Rightarrow> bool" where
  "cells_ok b = list_all (list_all slot_ok) (cells b)"

text \<open>The attributes that no method assigns after \<^verbatim>\<open>__init__\<close>.\<close>

definition same_params :: "board \<Rightarrow> board \<Rightarrow> bool" where
  "same_params b b' \<longleftrightarrow>
     nb_rows b' = nb_rows b \<and> nb_cols b' = nb_cols b \<and> hue_diff b' = hue_diff b \<and>
     p_brightness b' = p_brightness b \<and> p_down b' = p_down b \<and> p_right b' = p_right b"

text \<open>What holds of the board between any two calls of \<^verbatim>\<open>step\<close>.\<close>

definition board_inv :: "board \<Rightarrow> bool" where
  "board_inv b \<longleftrightarrow>
     board_ok b \<and> cells_ok b \<and> list_all (in_bounds b) (drifters b) \<and>
     int (length (drifters b)) = nb_cols b"

text \<open>An image of the board's size, and the settled cells of the whole grid.\<close>

definition px_shape :: "board \<Rightarrow> pixel list list \<Rightarrow> bool" where
  "px_shape b px \<longleftrightarrow>
     length px = nat (nb_rows b) \<and> list_all (\<lambda>r. length r = nat (nb_cols b)) px"

definition grid_cells :: "board \<Rightarrow> cell list" where
  "grid_cells b = present (concat (cells b))"

section \<open>Lemmas\<close>

subsection \<open>Results of the primitives\<close>

lemma ebind_Inr [simp]: "ebind (Inr x) f = f x"
  and ebind_Inl [simp]: "ebind (Inl e) f = Inl e"
  by (simp_all add: ebind_def)

lemma ebind_eq_Inr: "ebind m f = Inr y \<longleftrightarrow> (\<exists>x. m = Inr x \<and> f x = Inr y)"
  by (cases m) simp_all

lemma random_range: "0 \<le> fst (random g)" "fst (random g) < 1"
  by (simp_all add: random_def frac_lt_1)

lemma snd_random [simp]: "snd (random g) = stl g"
  by (simp add: random_def)

lemma snd_randbelow [simp]: "snd (randbelow n g) = stl g"
  by (simp add: randbelow_def)

lemma randbelow_range:
  assumes "0 < n"
  shows "0 \<le> fst (randbelow n g)" and "fst (randbelow n g) < n"
proof -
  let ?u = "fst (random g)"
  have u: "0 \<le> ?u" "?u < 1" by (rule random_range)+
  have n: "0 < (of_int n :: real)" using assms by simp
  show "0 \<le> fst (randbelow n g)"
    using u n by (simp add: randbelow_def)
  have "?u * of_int n < 1 * of_int n"
    using u n by (intro mult_strict_right_mono) simp_all
  then show "fst (randbelow n g) < n"
    by (simp add: randbelow_def floor_less_iff)
qed

lemma randrange_ok:
  "start < stop \<Longrightarrow> randrange start stop g = Inr (start + fst (randbelow (stop - start) g), stl g)"
  by (simp add: randrange_def)

lemma py_index_ok: "0 \<le> i \<Longrightarrow> i < int n \<Longrightarrow> py_index n i = Inr (nat i)"
  by (simp add: py_index_def)

lemma list_get_ok: "0 \<le> i \<Longrightarrow> i < int (length xs) \<Longrightarrow> list_get xs i = Inr (xs ! nat i)"
  by (simp add: list_get_def py_index_ok)

lemma list_set_ok: "0 \<le> i \<Longrightarrow> i < int (length xs) \<Longrightarrow> list_set xs i v = Inr (xs[nat i := v])"
  by (simp add: list_set_def py_index_ok)

lemma row_length:
  "board_ok b \<Longrightarrow> 0 \<le> row \<Longrightarrow> row < nb_rows b \<Longrightarrow> length (cells b ! nat row) = nat (nb_cols b)"
  by (simp add: board_ok_def list_all_length)

lemma cell_at_ok:
  assumes "board_ok b" "0 \<le> row" "row < nb_rows b" "0 \<le> col" "col < nb_cols b"
  shows "cell_at b row col = Inr (grid b row col)"
proof -
  have "list_get (cells b) row = Inr (cells b ! nat row)"
    using assms by (intro list_get_ok) (simp_all add: board_ok_def)
  moreover have "list_get (cells b ! nat row) col = Inr (cells b ! nat row ! nat col)"
    using assms by (intro list_get_ok) (simp_all add: row_length)
  ultimately show ?thesis by (simp add: cell_at_def grid_def)
qed

lemma set_cell_ok:
  assumes "board_ok b" "in_bounds b (row, col)"
  shows "set_cell b row col c = Inr (b\<lparr>cells := grid_upd b row col c\<rparr>)"
proof -
  have rc: "0 \<le> row" "row < nb_rows b" "0 \<le> col" "col < nb_cols b"
    using assms(2) by (simp_all add: in_bounds_def)
  have "list_get (cells b) row = Inr (cells b ! nat row)"
    using assms(1) rc by (intro list_get_ok) (simp_all add: board_ok_def)
  moreover have "list_set (cells b ! nat row) col (Some c) = Inr ((cells b ! nat row)[nat col := Some c])"
    using assms(1) rc by (intro list_set_ok) (simp_all add: row_length)
  moreover have "list_set (cells b) row r = Inr ((cells b)[nat row := r])" for r
    using assms(1) rc by (intro list_set_ok) (simp_all add: board_ok_def)
  ultimately show ?thesis by (simp add: set_cell_def grid_upd_def)
qed

lemma board_ok_grid_upd:
  assumes "board_ok b" "in_bounds b (row, col)"
  shows "board_ok (b\<lparr>cells := grid_upd b row col c\<rparr>)"
proof -
  have "list_all (\<lambda>r. length r = nat (nb_cols b)) (grid_upd b row col c)"
    using assms unfolding board_ok_def in_bounds_def grid_upd_def list_all_length
    by (auto simp: nth_list_update)
  then show ?thesis using assms by (simp add: board_ok_def grid_upd_def)
qed

lemma py_mod_ok: "b \<noteq> 0 \<Longrightarrow> py_mod a b = Inr (a mod b)"
  by (simp add: py_mod_def)

lemma present_append: "present (xs @ ys) = present xs @ present ys"
  by (induction xs rule: present.induct) simp_all

lemma present_pair: "present [x, y] = present [x] @ present [y]"
  using present_append [of "[x]" "[y]"] by simp

lemma append_cell_conv: "append_cell ns c = ns @ present [c]"
  by (cases c) (simp_all add: append_cell_def)

lemma coral_neighbours_ok:
  assumes ok: "board_ok b" and ib: "in_bounds b (row, col)"
  shows "coral_neighbours b row col = Inr (present (neighbour_slots b row col))"
proof -
  have rc: "0 \<le> row" "row < nb_rows b" "0 \<le> col" "col < nb_cols b"
    using ib by (simp_all add: in_bounds_def)
  have nc: "nb_cols b \<noteq> 0" "0 < nb_cols b" using ok by (simp_all add: board_ok_def)
  have up: "row > 0 \<Longrightarrow> cell_at b (row - 1) col = Inr (grid b (row - 1) col)"
    using ok rc by (intro cell_at_ok) simp_all
  have dn: "row < nb_rows b - 1 \<Longrightarrow> cell_at b (row + 1) col = Inr (grid b (row + 1) col)"
    using ok rc by (intro cell_at_ok) simp_all
  have r: "list_get (cells b) row = Inr (cells b ! nat row)"
    using ok rc by (intro list_get_ok) (simp_all add: board_ok_def)
  have h: "list_get (cells b ! nat row) (c mod nb_cols b) = Inr (grid b row (c mod nb_cols b))" for c
    using ok rc nc unfolding grid_def by (intro list_get_ok) (simp_all add: row_length)
  show ?thesis
    using up dn r h nc
    by (simp add: coral_neighbours_def neighbour_slots_def vertical_slots_def py_mod_ok append_cell_conv
        present_append present_pair Let_def del: present.simps(2,3))
qed

lemma get_coral_neighbour_ok:
  assumes "board_ok b" "in_bounds b (row, col)"
  shows "get_coral_neighbour b row col g =
           (let ns = present (neighbour_slots b row col) in
            if ns \<noteq> [] then Inr (Some (ns ! nat (fst (randbelow (int (length ns)) g))), stl g)
            else Inr (None, g))"
  using assms by (simp add: get_coral_neighbour_def coral_neighbours_ok choice_def Let_def)

lemma make_drifter_ok:
  "0 < nb_cols b \<Longrightarrow> make_drifter b g = Inr ((0, fst (randbelow (nb_cols b) g)), stl g)"
  by (simp add: make_drifter_def randrange_ok)

lemma get_random_hue_ok:
  "get_random_hue g = Inr ((- 60 + fst (randbelow 260 g)) mod 360, stl g)"
  by (simp add: get_random_hue_def randrange_ok)

lemma drifter_step_eq:
  assumes "board_ok b" and "in_bounds b (row, col)"
  shows "drifter_step b row col g =
     (let ns = present (neighbour_slots b row col) in
      if ns \<noteq> [] then
        (case get_child (ns ! nat (fst (randbelow (int (length ns)) g)))
                (hue_diff b) (p_brightness b) (stl g) of
           Inl e \<Rightarrow> Inl e
         | Inr (c, g2) \<Rightarrow>
             Inr ((0, fst (randbelow (nb_cols b) g2)),
                  b\<lparr>cells := grid_upd b row col c,
                    done_flag := (if row = 0 then True else done_flag b)\<rparr>,
                  stl g2))
      else if row = nb_rows b - 1 then
        Inr ((0, fst (randbelow (nb_cols b) (stl g))),
             b\<lparr>cells := grid_upd b row col
                  \<lparr>hue = (- 60 + fst (randbelow 260 g)) mod 360, brightness = 0\<rparr>\<rparr>,
             stl (stl g))
      else (case drift b row col g of
              Inl e \<Rightarrow> Inl e
            | Inr (d, g2) \<Rightarrow> Inr (d, b, g2)))"
proof -
  have nc: "0 < nb_cols b" using assms(1) by (simp add: board_ok_def)
  show ?thesis
    using assms nc
    by (cases "drift b row col g")
       (auto simp: drifter_step_def get_coral_neighbour_ok set_cell_ok make_drifter_ok
          get_random_hue_ok Let_def split: sum.splits prod.splits)
qed

lemma drift_eq:
  assumes "nb_cols b \<noteq> 0"
  shows "drift b row col g =
     (if row < nb_rows b - 1 \<and> frac (shd g) < p_down b
      then Inr ((row + 1, col), stl g)
      else
        let g1 = (if row < nb_rows b - 1 then stl g else g) in
        if row > 0 \<and> frac (shd g1) < 0.333
        then Inr ((row - 1, col), stl g1)
        else
          let g2 = (if row > 0 then stl g1 else g1) in
          if frac (shd g2) < p_right b
          then Inr ((row, (col + 1) mod nb_cols b), stl g2)
          else Inr ((row, (col - 1) mod nb_cols b), stl g2))"
  using assms by (simp add: drift_def random_def py_mod_ok Let_def)

lemma get_child_eq:
  assumes "0 \<le> hdiff"
  shows "get_child c hdiff p g =
     Inr (\<lparr>hue = (hue c + (- hdiff + fst (randbelow (2 * hdiff + 1) g))) mod 360,
           brightness = (if brightness c < 100 \<and> frac (shd (stl g)) < p
                         then brightness c + 1 else brightness c)\<rparr>,
          if brightness c < 100 then stl (stl g) else stl g)"
proof -
  have "randrange (- hdiff) (hdiff + 1) g = Inr (- hdiff + fst (randbelow (2 * hdiff + 1) g), stl g)"
    using assms randrange_ok [of "- hdiff" "hdiff + 1" g] by (simp add: algebra_simps)
  then show ?thesis
    by (simp add: get_child_def random_def Let_def)
qed

lemma get_child_offset:
  assumes "0 \<le> hdiff"
  shows "- hdiff \<le> - hdiff + fst (randbelow (2 * hdiff + 1) g)"
    and "- hdiff + fst (randbelow (2 * hdiff + 1) g) \<le> hdiff"
  using assms randbelow_range [of "2 * hdiff + 1" g] by simp_all

lemma get_child_ValueError:
  "hdiff < 0 \<Longrightarrow> get_child c hdiff p g = Inl ValueError"
  by (simp add: get_child_def randrange_def)

lemma same_params_refl [simp]: "same_params b b"
  by (simp add: same_params_def)

lemma same_params_trans: "same_params a b \<Longrightarrow> same_params b c \<Longrightarrow> same_params a c"
  by (simp add: same_params_def)

lemma in_bounds_same: "same_params b b' \<Longrightarrow> in_bounds b' d = in_bounds b d"
  by (simp add: same_params_def in_bounds_def)

lemma grid_slot_ok:
  assumes "board_ok b" "cells_ok b" "0 \<le> r" "r < nb_rows b" "0 \<le> c" "c < nb_cols b"
  shows "slot_ok (grid b r c)"
proof -
  have r: "nat r < length (cells b)" using assms by (simp add: board_ok_def)
  then have "list_all slot_ok (cells b ! nat r)"
    using assms(2) by (simp add: cells_ok_def list_all_length)
  moreover have "nat c < length (cells b ! nat r)"
    using assms by (simp add: row_length)
  ultimately show ?thesis by (simp add: grid_def list_all_length)
qed

lemma present_ok: "list_all slot_ok xs \<Longrightarrow> list_all cell_ok (present xs)"
  by (induction xs rule: present.induct) (simp_all add: slot_ok_def)

lemma neighbours_ok:
  assumes "board_ok b" "cells_ok b" "in_bounds b (row, col)"
  shows "list_all cell_ok (present (neighbour_slots b row col))"
proof -
  have rc: "0 \<le> row" "row < nb_rows b" "0 \<le> col" "col < nb_cols b"
    using assms(3) by (simp_all add: in_bounds_def)
  have nc: "0 < nb_cols b" using assms(1) by (simp add: board_ok_def)
  have "list_all slot_ok (neighbour_slots b row col)"
    using rc nc by (simp add: neighbour_slots_def vertical_slots_def grid_slot_ok [OF assms(1,2)])
  then show ?thesis by (rule present_ok)
qed

lemma get_child_cell_ok:
  assumes "get_child n hdiff p g = Inr (c, g')" "cell_ok n"
  shows "cell_ok c" and "brightness n \<le> brightness c"
  using assms
  by (auto simp: get_child_def ebind_eq_Inr Let_def cell_ok_def split: if_splits prod.splits)

lemma list_all_update: "list_all P xs \<Longrightarrow> P v \<Longrightarrow> list_all P (xs[i := v])"
  by (induction xs arbitrary: i) (auto split: nat.splits)

lemma cells_ok_grid_upd:
  assumes "cells_ok b" "cell_ok c"
  shows "cells_ok (b\<lparr>cells := grid_upd b row col c, done_flag := f\<rparr>)"
proof (cases "nat row < length (cells b)")
  case True
  then have "list_all slot_ok (cells b ! nat row)"
    using assms(1) by (simp add: cells_ok_def list_all_length)
  then have "list_all slot_ok ((cells b ! nat row)[nat col := Some c])"
    using assms(2) by (intro list_all_update) (simp_all add: slot_ok_def)
  then show ?thesis
    using assms(1) by (simp add: cells_ok_def grid_upd_def list_all_update)
next
  case False
  then have "(cells b)[nat row := r] = cells b" for r
    by (simp add: list_update_beyond)
  then show ?thesis using assms(1) by (simp add: cells_ok_def grid_upd_def)
qed

lemma drift_in_bounds:
  assumes "board_ok b" "in_bounds b (row, col)" "drift b row col g = Inr (d, g')"
  shows "in_bounds b d"
proof -
  have nc: "0 < nb_cols b" using assms(1) by (simp add: board_ok_def)
  then have "nb_cols b \<noteq> 0" by simp
  from drift_eq [OF this, of row col g] assms(2,3) nc show ?thesis
    by (auto simp: in_bounds_def Let_def split: if_splits)
qed

lemma drift_total:
  "nb_cols b \<noteq> 0 \<Longrightarrow> \<exists>d g'. drift b row col g = Inr (d, g')"
  by (simp add: drift_eq Let_def)

lemma drifter_step_shape:
  assumes ok: "board_ok b" and ib: "in_bounds b (row, col)"
    and st: "drifter_step b row col g = Inr (d, b', g')"
  shows "in_bounds b d \<and>
         (b' = b \<or> (\<exists>c f. b' = b\<lparr>cells := grid_upd b row col c, done_flag := f\<rparr> \<and>
                          (cells_ok b \<longrightarrow> cell_ok c)))"
proof -
  let ?ns = "present (neighbour_slots b row col)"
  have nc: "0 < nb_cols b" using ok by (simp add: board_ok_def)
  have fresh: "in_bounds b (0, fst (randbelow (nb_cols b) h))" for h
    using nc ib randbelow_range [of "nb_cols b" h] by (simp add: in_bounds_def)
  note eq = drifter_step_eq [OF ok ib, of g]
  show ?thesis
  proof (cases "?ns = []")
    case False
    let ?n = "?ns ! nat (fst (randbelow (int (length ?ns)) g))"
    have len: "0 < int (length ?ns)" using False by simp
    have "nat (fst (randbelow (int (length ?ns)) g)) < length ?ns"
      using randbelow_range [OF len, of g] by simp
    then have n_ok: "cells_ok b \<Longrightarrow> cell_ok ?n"
      using neighbours_ok [OF ok _ ib] by (simp add: list_all_length)
    from eq st False obtain c g2 where
      gc: "get_child ?n (hue_diff b) (p_brightness b) (stl g) = Inr (c, g2)"
      and d: "d = (0, fst (randbelow (nb_cols b) g2))"
      and b': "b' = b\<lparr>cells := grid_upd b row col c,
                        done_flag := (if row = 0 then True else done_flag b)\<rparr>"
      by (auto simp: Let_def split: sum.splits)
    have "cells_ok b \<longrightarrow> cell_ok c"
      using get_child_cell_ok(1) [OF gc] n_ok by blast
    then show ?thesis using d b' fresh by blast
  next
    case True
    show ?thesis
    proof (cases "row = nb_rows b - 1")
      case last: True
      let ?c = "\<lparr>hue = (- 60 + fst (randbelow 260 g)) mod 360, brightness = 0\<rparr>"
      from eq st True last have d: "d = (0, fst (randbelow (nb_cols b) (stl g)))"
        and b': "b' = b\<lparr>cells := grid_upd b row col ?c\<rparr>"
        by (auto simp: Let_def)
      have "cell_ok ?c" by (simp add: cell_ok_def)
      moreover have "b' = b\<lparr>cells := grid_upd b row col ?c, done_flag := done_flag b\<rparr>"
        using b' by simp
      ultimately show ?thesis using d fresh by blast
    next
      case False
      from eq st True False obtain g2 where "drift b row col g = Inr (d, g2)" and "b' = b"
        by (auto simp: Let_def split: sum.splits)
      then show ?thesis using drift_in_bounds [OF ok ib] by blast
    qed
  qed
qed

lemma drifter_step_inv:
  assumes "board_ok b" "in_bounds b (row, col)" "drifter_step b row col g = Inr (d, b', g')"
  shows "board_ok b'" and "in_bounds b' d" and "same_params b b'"
    and "drifters b' = drifters b" and "step_nb b' = step_nb b"
    and "cells_ok b \<Longrightarrow> cells_ok b'"
proof -
  from drifter_step_shape [OF assms] have d: "in_bounds b d"
    and sh: "b' = b \<or> (\<exists>c f. b' = b\<lparr>cells := grid_upd b row col c, done_flag := f\<rparr> \<and>
                          (cells_ok b \<longrightarrow> cell_ok c))"
    by blast+
  have g: "board_ok (b\<lparr>cells := grid_upd b row col c, done_flag := f\<rparr>)" for c f
    using board_ok_grid_upd [OF assms(1,2), of c] by (simp add: board_ok_def)
  show "board_ok b'" using sh assms(1) g by auto
  show sp: "same_params b b'" using sh by (auto simp: same_params_def)
  show "in_bounds b' d" using d in_bounds_same [OF sp] by simp
  show "drifters b' = drifters b" using sh by auto
  show "step_nb b' = step_nb b" using sh by auto
  show "cells_ok b'" if "cells_ok b"
    using sh that cells_ok_grid_upd [OF that] by auto
qed

lemma drifter_step_total:
  assumes "board_ok b" "in_bounds b (row, col)" "0 \<le> hue_diff b"
  shows "\<exists>d b' g'. drifter_step b row col g = Inr (d, b', g')"
proof -
  have "nb_cols b \<noteq> 0" using assms(1) by (simp add: board_ok_def)
  from drift_total [OF this, of row col g] show ?thesis
    unfolding drifter_step_eq [OF assms(1,2)]
    by (auto simp: Let_def get_child_eq [OF assms(3)])
qed

subsection \<open>Construction and the invariant of \<open>step\<close>\<close>

lemma make_drifters_ok:
  assumes "0 < nb_cols self"
  shows "\<exists>ds g'. make_drifters self k g = Inr (ds, g') \<and> length ds = k \<and>
           list_all (\<lambda>d. fst d = 0 \<and> 0 \<le> snd d \<and> snd d < nb_cols self) ds"
proof (induction k arbitrary: g)
  case 0
  show ?case by simp
next
  case (Suc k)
  from Suc [of "stl g"] obtain ds g' where
    "make_drifters self k (stl g) = Inr (ds, g')" "length ds = k"
    "list_all (\<lambda>d. fst d = 0 \<and> 0 \<le> snd d \<and> snd d < nb_cols self) ds"
    by blast
  then show ?case
    using assms randbelow_range [OF assms, of g] by (simp add: make_drifter_ok)
qed



lemma Board_init_inv:
  assumes "0 < nr" "0 < nc"
  shows "\<exists>b g'. Board_init nr nc hdiff pb db rb g = Inr (b, g') \<and> board_inv b \<and>
           nb_rows b = nr \<and> nb_cols b = nc \<and> hue_diff b = hdiff \<and>
           \<not> done_flag b \<and> step_nb b = 0 \<and>
           cells b = replicate (nat nr) (replicate (nat nc) None)"
proof -
  let ?self = "\<lparr>nb_rows = nr, nb_cols = nc,
                  cells = replicate (nat nr) (replicate (nat nc) None),
                  step_nb = 0, done_flag = False, drifters = [],
                  hue_diff = hdiff, p_brightness = 0, p_down = 0, p_right = 0\<rparr>"
  have "0 < nb_cols ?self" using assms by simp
  from make_drifters_ok [OF this, of "nat nc" g] obtain ds g' where
    md: "make_drifters ?self (nat nc) g = Inr (ds, g')" and len: "length ds = nat nc"
    and ds: "list_all (\<lambda>d. fst d = 0 \<and> 0 \<le> snd d \<and> snd d < nc) ds"
    by auto
  let ?b = "?self\<lparr>drifters := ds, p_brightness := pb * 100 / of_int nr,
                  p_down := 0.25 + 0.75 * db, p_right := 0.5 + rb / 2\<rparr>"
  have eq: "Board_init nr nc hdiff pb db rb g = Inr (?b, g')"
    using md assms by (simp add: Board_init_def)
  have "list_all (in_bounds ?b) ds"
    using ds assms by (simp add: in_bounds_def list_all_length)
  moreover have "board_ok ?b"
    using assms by (simp add: board_ok_def list_all_length)
  moreover have "cells_ok ?b"
    by (simp add: cells_ok_def list_all_length slot_ok_def)
  ultimately have "board_inv ?b"
    using len assms by (simp add: board_inv_def)
  then show ?thesis using eq by simp
qed

lemma drifter_steps_inv:
  assumes "board_ok b" "list_all (in_bounds b) ds" "drifter_steps b ds g = Inr (out, b', g')"
  shows "board_ok b' \<and> list_all (in_bounds b') out \<and> length out = length ds \<and>
         same_params b b' \<and> drifters b' = drifters b \<and> step_nb b' = step_nb b \<and>
         (cells_ok b \<longrightarrow> cells_ok b')"
  using assms
proof (induction ds arbitrary: b g out)
  case Nil
  then show ?case by simp
next
  case (Cons d ds)
  obtain row col where d: "d = (row, col)" by (cases d)
  from Cons.prems(3) d obtain p b1 g1 out1 where
    st: "drifter_step b row col g = Inr (p, b1, g1)"
    and rest: "drifter_steps b1 ds g1 = Inr (out1, b', g')" and out: "out = p # out1"
    by (auto simp: ebind_eq_Inr)
  have ib: "in_bounds b (row, col)" using Cons.prems(2) d by simp
  note inv = drifter_step_inv [OF Cons.prems(1) ib st]
  have "in_bounds b1 = in_bounds b"
    using in_bounds_same [OF inv(3)] by (intro ext)
  then have "list_all (in_bounds b1) ds"
    using Cons.prems(2) by simp
  from Cons.IH [OF inv(1) this rest]
  have IH: "board_ok b'" "list_all (in_bounds b') out1" "length out1 = length ds"
    "same_params b1 b'" "drifters b' = drifters b1" "step_nb b' = step_nb b1"
    "cells_ok b1 \<longrightarrow> cells_ok b'"
    by blast+
  have sp: "same_params b b'" using inv(3) IH(4) by (rule same_params_trans)
  have "in_bounds b' p" using inv(2) in_bounds_same [OF IH(4)] by simp
  then show ?case
    using IH inv(4,5,6) sp out by simp
qed

lemma drifter_steps_total:
  assumes "board_ok b" "list_all (in_bounds b) ds" "0 \<le> hue_diff b"
  shows "\<exists>out b' g'. drifter_steps b ds g = Inr (out, b', g')"
  using assms
proof (induction ds arbitrary: b g)
  case Nil
  show ?case by simp
next
  case (Cons d ds)
  obtain row col where d: "d = (row, col)" by (cases d)
  have ib: "in_bounds b (row, col)" using Cons.prems(2) d by simp
  from drifter_step_total [OF Cons.prems(1) ib Cons.prems(3), of g] obtain p b1 g1 where
    st: "drifter_step b row col g = Inr (p, b1, g1)" by blast
  note inv = drifter_step_inv [OF Cons.prems(1) ib st]
  have "in_bounds b1 = in_bounds b"
    using in_bounds_same [OF inv(3)] by (intro ext)
  then have "list_all (in_bounds b1) ds"
    using Cons.prems(2) by simp
  moreover have "0 \<le> hue_diff b1" using inv(3) Cons.prems(3) by (simp add: same_params_def)
  moreover note \<open>list_all (in_bounds b1) ds\<close>
  ultimately obtain out b' g' where "drifter_steps b1 ds g1 = Inr (out, b', g')"
    using Cons.IH [OF inv(1)] by blast
  then show ?case using st d by simp
qed

lemma drifter_steps_append:
  "drifter_steps b (xs @ ys) g =
     ebind (drifter_steps b xs g) (\<lambda>(o1, b1, g1).
     ebind (drifter_steps b1 ys g1) (\<lambda>(o2, b2, g2). Inr (o1 @ o2, b2, g2)))"
proof (induction xs arbitrary: b g)
  case Nil
  show ?case by (cases "drifter_steps b ys g") auto
next
  case (Cons d xs)
  obtain row col where d: "d = (row, col)" by (cases d)
  show ?case
  proof (cases "drifter_step b row col g")
    case (Inl e)
    then show ?thesis using d by simp
  next
    case (Inr r)
    obtain p b1 g1 where r: "r = (p, b1, g1)" by (cases r)
    show ?thesis
    proof (cases "drifter_steps b1 xs g1")
      case Inl
      then show ?thesis using d Inr r Cons.IH [of b1 g1] by simp
    next
      case (Inr r1)
      obtain o1 b2 g2 where "r1 = (o1, b2, g2)" by (cases r1)
      with Inr have xs: "drifter_steps b1 xs g1 = Inr (o1, b2, g2)" by simp
      show ?thesis
        using d \<open>drifter_step b row col g = Inr r\<close> r xs Cons.IH [of b1 g1]
        by (cases "drifter_steps b2 ys g2") auto
    qed
  qed
qed

lemma in_bounds_step_nb [simp]: "in_bounds (b\<lparr>step_nb := n\<rparr>) = in_bounds b"
  by (rule ext) (simp add: in_bounds_def)

lemma in_bounds_drifters [simp]: "in_bounds (b\<lparr>drifters := ds\<rparr>) = in_bounds b"
  by (rule ext) (simp add: in_bounds_def)

lemma board_ok_step_nb: "board_ok (b\<lparr>step_nb := n\<rparr>) = board_ok b"
  by (simp add: board_ok_def)

lemma step_inv:
  assumes "board_inv b" "step b g = Inr (b', g')"
  shows "board_inv b'" and "same_params b b'" and "step_nb b' = step_nb b + 1"
proof -
  let ?b1 = "b\<lparr>step_nb := step_nb b + 1\<rparr>"
  from assms(2) obtain out b2 where
    ds: "drifter_steps ?b1 (drifters b) g = Inr (out, b2, g')" and b': "b' = b2\<lparr>drifters := out\<rparr>"
    by (auto simp: step_def Let_def ebind_eq_Inr)
  have ok: "board_ok ?b1" using assms(1) by (simp add: board_inv_def board_ok_def)
  have ib: "list_all (in_bounds ?b1) (drifters b)"
    using assms(1) by (simp add: board_inv_def)
  have co: "cells_ok ?b1" using assms(1) by (simp add: board_inv_def cells_ok_def)
  from drifter_steps_inv [OF ok ib ds] co
  have inv: "board_ok b2" "list_all (in_bounds b2) out" "length out = length (drifters b)"
    "same_params ?b1 b2" "step_nb b2 = step_nb b + 1" "cells_ok b2"
    by simp_all
  show "board_inv b'"
    using inv assms(1) b'
    by (simp add: board_inv_def board_ok_def cells_ok_def same_params_def)
  show "same_params b b'" using inv(4) b' by (simp add: same_params_def)
  show "step_nb b' = step_nb b + 1" using inv(5) b' by simp
qed

lemma step_total:
  assumes "board_inv b" "0 \<le> hue_diff b"
  shows "\<exists>b' g'. step b g = Inr (b', g')"
proof -
  let ?b1 = "b\<lparr>step_nb := step_nb b + 1\<rparr>"
  have ok: "board_ok ?b1" using assms(1) by (simp add: board_inv_def board_ok_def)
  have ib: "list_all (in_bounds ?b1) (drifters b)"
    using assms(1) by (simp add: board_inv_def)
  have "0 \<le> hue_diff ?b1" using assms(2) by simp
  from drifter_steps_total [OF ok ib this, of g] show ?thesis
    by (auto simp: step_def Let_def)
qed

lemma steps_inv:
  assumes "board_inv b" "steps n b g = Inr (b', g')"
  shows "board_inv b' \<and> same_params b b' \<and> step_nb b' = step_nb b + int n"
  using assms
proof (induction n arbitrary: b g)
  case 0
  then show ?case by simp
next
  case (Suc n)
  from Suc.prems(2) obtain b1 g1 where
    st: "step b g = Inr (b1, g1)" and rest: "steps n b1 g1 = Inr (b', g')"
    by (auto simp: ebind_eq_Inr)
  note inv = step_inv [OF Suc.prems(1) st]
  from Suc.IH [OF inv(1) rest] inv(2,3) show ?case
    by (auto intro: same_params_trans)
qed

lemma steps_total:
  assumes "board_inv b" "0 \<le> hue_diff b"
  shows "\<exists>b' g'. steps n b g = Inr (b', g')"
  using assms
proof (induction n arbitrary: b g)
  case 0
  show ?case by simp
next
  case (Suc n)
  from step_total [OF Suc.prems, of g] obtain b1 g1 where
    st: "step b g = Inr (b1, g1)" by blast
  note inv = step_inv [OF Suc.prems(1) st]
  have "0 \<le> hue_diff b1" using inv(2) Suc.prems(2) by (simp add: same_params_def)
  from Suc.IH [OF inv(1) this, of g1] st show ?case by simp
qed

subsection \<open>Snapshots and exceptions\<close>

lemma set_py_range: "x \<in> set (py_range n) \<longleftrightarrow> 0 \<le> x \<and> x < n"
proof
  assume "x \<in> set (py_range n)"
  then show "0 \<le> x \<and> x < n" by (auto simp: py_range_def)
next
  assume a: "0 \<le> x \<and> x < n"
  then have "nat x \<in> set [0..<nat n]" by simp
  then have "int (nat x) \<in> int ` set [0..<nat n]" by (rule imageI)
  then show "x \<in> set (py_range n)" using a by (simp add: py_range_def)
qed

lemma emap_total:
  assumes "\<And>x. x \<in> set xs \<Longrightarrow> \<exists>y. f x = Inr y"
  shows "\<exists>ys. emap f xs = Inr ys"
  using assms
proof (induction xs)
  case Nil
  show ?case by simp
next
  case (Cons x xs)
  from Cons.prems [of x] obtain y where "f x = Inr y" by auto
  moreover from Cons.IH Cons.prems obtain ys where "emap f xs = Inr ys" by auto
  ultimately show ?case by simp
qed

lemma efold_inv:
  assumes "P s" and "\<And>x t. x \<in> set xs \<Longrightarrow> P t \<Longrightarrow> \<exists>t'. f x t = Inr t' \<and> P t'"
  shows "\<exists>s'. efold f xs s = Inr s' \<and> P s'"
  using assms
proof (induction xs arbitrary: s)
  case Nil
  then show ?case by simp
next
  case (Cons x xs)
  from Cons.prems(2) [of x s] Cons.prems(1) obtain t where t: "f x s = Inr t" "P t" by auto
  from Cons.IH [OF t(2)] Cons.prems(2) obtain s' where "efold f xs t = Inr s'" "P s'"
    by auto
  then show ?case using t by simp
qed

lemma print_cell_total:
  assumes "board_ok b" "0 \<le> row" "row < nb_rows b" "0 \<le> col" "col < nb_cols b"
  shows "\<exists>ch. print_cell b row col = Inr ch"
  using cell_at_ok [OF assms] by (simp add: print_cell_def)

lemma board_str_total:
  assumes "board_ok b"
  shows "\<exists>s. board_str b = Inr s"
proof -
  have "\<exists>l. emap (\<lambda>col. print_cell b row col) (py_range (nb_cols b)) = Inr l"
    if "row \<in> set (py_range (nb_rows b))" for row
    using that print_cell_total [OF assms] by (intro emap_total) (simp add: set_py_range)
  then obtain ls where
    "emap (\<lambda>row. emap (\<lambda>col. print_cell b row col) (py_range (nb_cols b)))
       (py_range (nb_rows b)) = Inr ls"
    using emap_total [of "py_range (nb_rows b)"
        "\<lambda>row. emap (\<lambda>col. print_cell b row col) (py_range (nb_cols b))"]
    by blast
  then show ?thesis by (simp add: board_str_def)
qed

lemma px_set_ok:
  assumes "px_shape b px" "in_bounds b (row, col)"
  shows "\<exists>px'. px_set px col row v = Inr px' \<and> px_shape b px'"
proof -
  have rc: "0 \<le> row" "row < nb_rows b" "0 \<le> col" "col < nb_cols b"
    using assms(2) by (simp_all add: in_bounds_def)
  have len: "length px = nat (nb_rows b)" and rows: "list_all (\<lambda>r. length r = nat (nb_cols b)) px"
    using assms(1) by (simp_all add: px_shape_def)
  have rl: "length (px ! nat row) = nat (nb_cols b)"
    using rows rc len by (simp add: list_all_length)
  have 1: "list_get px row = Inr (px ! nat row)"
    using rc len by (intro list_get_ok) simp_all
  have 2: "list_set (px ! nat row) col v = Inr ((px ! nat row)[nat col := v])"
    using rc rl by (intro list_set_ok) simp_all
  have 3: "list_set px row r = Inr (px[nat row := r])" for r
    using rc len by (intro list_set_ok) simp_all
  have "list_all (\<lambda>r. length r = nat (nb_cols b)) (px[nat row := (px ! nat row)[nat col := v]])"
    using rows rl by (intro list_all_update) simp_all
  then show ?thesis using 1 2 3 len by (simp add: px_set_def px_shape_def)
qed

lemma paint_cell_ok:
  assumes "board_ok b" "cells_ok b" "px_shape b px" "in_bounds b rc"
  shows "\<exists>px'. paint_cell b rc px = Inr px' \<and> px_shape b px'"
proof -
  obtain row col where rc: "rc = (row, col)" by (cases rc)
  have b: "0 \<le> row" "row < nb_rows b" "0 \<le> col" "col < nb_cols b"
    using assms(4) rc by (simp_all add: in_bounds_def)
  have ca: "cell_at b row col = Inr (grid b row col)" using cell_at_ok [OF assms(1) b] .
  show ?thesis
  proof (cases "grid b row col")
    case None
    then show ?thesis using ca rc assms(3) by (simp add: paint_cell_def)
  next
    case (Some c)
    have "slot_ok (grid b row col)" using grid_slot_ok [OF assms(1,2) b] .
    then have "cell_ok c" using Some by (simp add: slot_ok_def)
    then have "getrgb_hsv (hue c) (brightness c) = Inr (Hsv (hue c) (brightness c))"
      by (simp add: getrgb_hsv_def cell_ok_def)
    moreover from px_set_ok [OF assms(3), of row col "Hsv (hue c) (brightness c)"] assms(4) rc
    obtain px' where "px_set px col row (Hsv (hue c) (brightness c)) = Inr px'" "px_shape b px'"
      by auto
    ultimately show ?thesis using ca rc Some by (simp add: paint_cell_def)
  qed
qed

lemma print_to_image_total:
  assumes "board_ok b" "cells_ok b" "list_all (in_bounds b) (drifters b)"
  shows "\<exists>im. print_to_image b sd = Inr im"
proof -
  let ?im = "replicate (nat (nb_rows b)) (replicate (nat (nb_cols b)) Background)"
  have new: "image_new (nb_cols b) (nb_rows b) Background = Inr ?im"
    using assms(1) by (simp add: image_new_def board_ok_def)
  have sh: "px_shape b ?im" by (simp add: px_shape_def list_all_length)
  have "\<exists>t'. paint_cell b x t = Inr t' \<and> px_shape b t'"
    if "x \<in> set (List.product (py_range (nb_rows b)) (py_range (nb_cols b)))" "px_shape b t"
    for x t
  proof -
    have "in_bounds b x" using that(1) by (auto simp: in_bounds_def set_py_range)
    then show ?thesis using paint_cell_ok [OF assms(1,2) that(2)] by simp
  qed
  from efold_inv [of "px_shape b" ?im _ "paint_cell b", OF sh this] obtain px where
    px: "efold (paint_cell b) (List.product (py_range (nb_rows b)) (py_range (nb_cols b))) ?im
           = Inr px" "px_shape b px"
    by blast
  have "\<exists>t'. paint_drifter x t = Inr t' \<and> px_shape b t'"
    if "x \<in> set (drifters b)" "px_shape b t" for x t
  proof -
    have "in_bounds b (fst x, snd x)" using that(1) assms(3) by (simp add: list_all_iff)
    from px_set_ok [OF that(2) this] show ?thesis by (simp add: paint_drifter_def)
  qed
  from efold_inv [of "px_shape b" px _ paint_drifter, OF px(2) this] obtain px' where
    "efold paint_drifter (drifters b) px = Inr px'"
    by blast
  then show ?thesis using new px(1) by (simp add: print_to_image_def)
qed

text \<open>The only exception of a step on a well-formed board.\<close>

lemma get_child_Inl:
  "get_child c hdiff p g = Inl e \<Longrightarrow> e = ValueError \<and> hdiff < 0"
  by (cases "0 \<le> hdiff") (simp_all add: get_child_eq get_child_ValueError)

lemma drifter_step_Inl:
  assumes "board_ok b" "in_bounds b (row, col)" "drifter_step b row col g = Inl e"
  shows "e = ValueError \<and> hue_diff b < 0"
proof -
  have "nb_cols b \<noteq> 0" using assms(1) by (simp add: board_ok_def)
  from drift_total [OF this, of row col g] assms(3) show ?thesis
    unfolding drifter_step_eq [OF assms(1,2)]
    by (auto simp: Let_def split: if_splits sum.splits dest: get_child_Inl)
qed

lemma drifter_steps_Inl:
  assumes "board_ok b" "list_all (in_bounds b) ds" "drifter_steps b ds g = Inl e"
  shows "e = ValueError \<and> hue_diff b < 0"
  using assms
proof (induction ds arbitrary: b g)
  case Nil
  then show ?case by simp
next
  case (Cons d ds)
  obtain row col where d: "d = (row, col)" by (cases d)
  have ib: "in_bounds b (row, col)" using Cons.prems(2) d by simp
  show ?case
  proof (cases "drifter_step b row col g")
    case (Inl e')
    then have "e' = e" using Cons.prems(3) d by simp
    then show ?thesis using drifter_step_Inl [OF Cons.prems(1) ib] Inl by simp
  next
    case (Inr r)
    obtain p b1 g1 where r: "r = (p, b1, g1)" by (cases r)
    note inv = drifter_step_inv [OF Cons.prems(1) ib Inr [unfolded r]]
    have "in_bounds b1 = in_bounds b"
      using in_bounds_same [OF inv(3)] by (intro ext)
    then have ibs: "list_all (in_bounds b1) ds" using Cons.prems(2) by simp
    have "drifter_steps b1 ds g1 = Inl e"
      using Cons.prems(3) d Inr r by (cases "drifter_steps b1 ds g1") auto
    from Cons.IH [OF inv(1) ibs this] inv(3) show ?thesis by (simp add: same_params_def)
  qed
qed

lemma step_Inl:
  assumes "board_inv b" "step b g = Inl e"
  shows "e = ValueError \<and> hue_diff b < 0"
proof -
  let ?b1 = "b\<lparr>step_nb := step_nb b + 1\<rparr>"
  have ok: "board_ok ?b1" using assms(1) by (simp add: board_inv_def board_ok_def)
  have ib: "list_all (in_bounds ?b1) (drifters b)"
    using assms(1) by (simp add: board_inv_def)
  have "drifter_steps ?b1 (drifters b) g = Inl e"
    using assms(2) by (cases "drifter_steps ?b1 (drifters b) g") (auto simp: step_def Let_def)
  from drifter_steps_Inl [OF ok ib this] show ?thesis by simp
qed

lemma steps_Inl:
  assumes "board_inv b" "steps n b g = Inl e"
  shows "e = ValueError \<and> hue_diff b < 0"
  using assms
proof (induction n arbitrary: b g)
  case 0
  then show ?case by simp
next
  case (Suc n)
  show ?case
  proof (cases "step b g")
    case (Inl e')
    then have "e' = e" using Suc.prems(2) by simp
    then show ?thesis using step_Inl [OF Suc.prems(1)] Inl by simp
  next
    case (Inr r)
    obtain b1 g1 where r: "r = (b1, g1)" by (cases r)
    note inv = step_inv [OF Suc.prems(1) Inr [unfolded r]]
    have "steps n b1 g1 = Inl e" using Suc.prems(2) Inr r by simp
    from Suc.IH [OF inv(1) this] inv(2) show ?thesis by (simp add: same_params_def)
  qed
qed

subsection \<open>Evaluation on concrete boards\<close>

lemmas run_defs = Board_init_def make_drifter_def randrange_def randbelow_def random_def
  step_def drifter_step_def get_coral_neighbour_def coral_neighbours_def cell_at_def
  set_cell_def list_get_def list_set_def py_index_def py_mod_def append_cell_def choice_def
  get_child_def get_random_hue_def drift_def Let_def

lemma grid_cells_ok:
  assumes "cells_ok b" "c \<in> set (grid_cells b)"
  shows "cell_ok c"
proof -
  have "list_all slot_ok (concat (cells b))"
    using assms(1) by (auto simp: cells_ok_def list_all_iff)
  then have "list_all cell_ok (grid_cells b)"
    unfolding grid_cells_def by (rule present_ok)
  then show ?thesis using assms(2) by (simp add: list_all_iff)
qed

lemma randbelow_1 [simp]: "fst (randbelow 1 g) = 0"
  using randbelow_range [of 1 g] by simp

lemma randbelow_onto:
  assumes "0 \<le> k" "k < n"
  shows "\<exists>g. fst (randbelow n g) = k"
proof -
  define u :: real where "u = (of_int k + 1 / 2) / of_int n"
  have n: "0 < (of_int n :: real)" using assms by simp
  have k: "(of_int k :: real) + 1 / 2 < of_int n"
  proof -
    have "k + 1 \<le> n" using assms by simp
    then have "(of_int (k + 1) :: real) \<le> of_int n" by (simp only: of_int_le_iff)
    then show ?thesis by simp
  qed
  have "0 \<le> u" using assms n by (simp add: u_def)
  moreover have "u < 1" using k n by (simp add: u_def)
  ultimately have "frac u = u" by (simp add: frac_eq)
  moreover have "u * of_int n = of_int k + 1 / 2" using n by (simp add: u_def)
  moreover have "\<lfloor>(of_int k :: real) + 1 / 2\<rfloor> = k" by linarith
  ultimately have "fst (randbelow n (sconst u)) = k"
    by (simp add: randbelow_def random_def)
  then show ?thesis by blast
qed

section \<open>The claims\<close>

text \<open>
  Claim C1, as stated, fails. On the board built with one row and one column, the first
  \<open>step\<close> seeds a root cell at \<open>(0, 0)\<close>, but the seeding branch of
  \<open>drifter_step\<close> does not touch the flag \<open>done\<close>: after the first step it is still
  false. Here with the default parameters and a random source that always draws 0.
\<close>

theorem first_step_not_done:
  "ebind (Board_init 1 1 2 (4 / 5) (3 / 10) 0 (sconst 0)) (\<lambda>(b, g). step b g) =
     Inr (\<lparr>nb_rows = 1, nb_cols = 1, cells = [[Some \<lparr>hue = 300, brightness = 0\<rparr>]],
           step_nb = 1, done_flag = False, drifters = [(0, 0)], hue_diff = 2,
           p_brightness = 80, p_down = 19 / 40, p_right = 1 / 2\<rparr>, sconst 0)"
  by (simp add: run_defs)

text \<open>
  Claim C1, amended. For every choice of the other parameters and every random source,
  the board built with one row and one column has the single drifter \<open>(0, 0)\<close> on an
  empty grid. The first \<open>step\<close> seeds a root cell of brightness 0 at \<open>(0, 0)\<close> and leaves
  \<open>done\<close> false. When \<open>hue_diff\<close> is not negative, the second \<open>step\<close> settles on that
  cell, which on one column is its own left and right neighbour, and sets \<open>done\<close>:
  the flag is true after exactly two steps.
\<close>

theorem one_by_one_board:
  "\<exists>b0 g1 b1 g2 h.
     Board_init 1 1 hdiff pb db rb g = Inr (b0, g1) \<and>
     cells b0 = [[None]] \<and> drifters b0 = [(0, 0)] \<and> \<not> done_flag b0 \<and>
     step b0 g1 = Inr (b1, g2) \<and>
     cells b1 = [[Some \<lparr>hue = h, brightness = 0\<rparr>]] \<and> drifters b1 = [(0, 0)] \<and>
     \<not> done_flag b1 \<and>
     (0 \<le> hdiff \<longrightarrow>
        (\<exists>b2 g3 c. step b1 g2 = Inr (b2, g3) \<and> cells b2 = [[Some c]] \<and> done_flag b2))"
proof -
  define b0 where "b0 = \<lparr>nb_rows = 1, nb_cols = 1, cells = [[None]], step_nb = 0,
      done_flag = False, drifters = [(0, 0)], hue_diff = hdiff, p_brightness = pb * 100,
      p_down = 0.25 + 0.75 * db, p_right = 0.5 + rb / 2\<rparr>"
  define h where "h = (- 60 + fst (randbelow 260 (stl g))) mod 360"
  define c0 where "c0 = b0\<lparr>step_nb := 1\<rparr>"
  define b1 where "b1 = c0\<lparr>cells := [[Some \<lparr>hue = h, brightness = 0\<rparr>]]\<rparr>"
  define c1 where "c1 = b1\<lparr>step_nb := 2\<rparr>"
  have init: "Board_init 1 1 hdiff pb db rb g = Inr (b0, stl g)"
    by (simp add: Board_init_def make_drifter_ok b0_def)
  have ok0: "board_ok c0" by (simp add: board_ok_def c0_def b0_def)
  have ib0: "in_bounds c0 (0, 0)" by (simp add: in_bounds_def c0_def b0_def)
  have ns0: "present (neighbour_slots c0 0 0) = []"
    by (simp add: neighbour_slots_def vertical_slots_def grid_def c0_def b0_def)
  have "drifter_step c0 0 0 (stl g) = Inr ((0, 0), b1, stl (stl (stl g)))"
    unfolding drifter_step_eq [OF ok0 ib0] ns0
    by (simp add: grid_upd_def c0_def b0_def b1_def h_def)
  then have st1: "step b0 (stl g) = Inr (b1, stl (stl (stl g)))"
    by (simp add: step_def c0_def [symmetric]) (simp add: b0_def c0_def b1_def)
  have ok1: "board_ok c1" by (simp add: board_ok_def c1_def b1_def c0_def b0_def)
  have ib1: "in_bounds c1 (0, 0)" by (simp add: in_bounds_def c1_def b1_def c0_def b0_def)
  have ns1: "present (neighbour_slots c1 0 0) =
      [\<lparr>hue = h, brightness = 0\<rparr>, \<lparr>hue = h, brightness = 0\<rparr>]"
    by (simp add: neighbour_slots_def vertical_slots_def grid_def c1_def b1_def c0_def b0_def)
  have st2: "\<exists>b2 g3 c. step b1 (stl (stl (stl g))) = Inr (b2, g3) \<and> cells b2 = [[Some c]] \<and>
               done_flag b2"
    if "0 \<le> hdiff"
  proof -
    have hd: "0 \<le> hue_diff c1" using that by (simp add: c1_def b1_def c0_def b0_def)
    have "\<exists>p b2 g3 c. drifter_step c1 0 0 (stl (stl (stl g))) = Inr (p, b2, g3) \<and>
            cells b2 = [[Some c]] \<and> done_flag b2"
      unfolding drifter_step_eq [OF ok1 ib1] ns1
      by (simp add: get_child_eq [OF hd] grid_upd_def Let_def)
        (simp add: c1_def b1_def c0_def b0_def)
    then obtain p b2 g3 c where
      d: "drifter_step c1 0 0 (stl (stl (stl g))) = Inr (p, b2, g3)"
      and c: "cells b2 = [[Some c]]" "done_flag b2"
      by blast
    have "b1\<lparr>step_nb := step_nb b1 + 1\<rparr> = c1" "drifters c1 = [(0, 0)]"
      by (simp_all add: c1_def b1_def c0_def b0_def)
    then have "step b1 (stl (stl (stl g))) = Inr (b2\<lparr>drifters := [p]\<rparr>, g3)"
      using d by (simp add: step_def Let_def)
    then show ?thesis using c by simp
  qed
  have "cells b0 = [[None]]" "drifters b0 = [(0, 0)]" "\<not> done_flag b0"
    "cells b1 = [[Some \<lparr>hue = h, brightness = 0\<rparr>]]" "drifters b1 = [(0, 0)]"
    "\<not> done_flag b1"
    by (simp_all add: b1_def c0_def b0_def)
  then show ?thesis using init st1 st2 by blast
qed

theorem one_by_one_board_witness:
  "(0::int) \<le> 2 \<and>
   (\<exists>b0 g1 b1 g2. Board_init 1 1 2 (4 / 5) (3 / 10) 0 (sconst 0) = Inr (b0, g1) \<and>
      step b0 g1 = Inr (b1, g2) \<and> \<not> done_flag b1 \<and>
      (\<exists>b2 g3. step b1 g2 = Inr (b2, g3) \<and> done_flag b2))"
  using one_by_one_board [of 2 "4 / 5" "3 / 10" 0 "sconst 0"] by fastforce




text \<open>
  Claim C3, as stated, fails. On the board built with one row and two columns, with the
  drifters \<open>(0, 0)\<close> and \<open>(0, 1)\<close>, one \<open>step\<close> lets the first drifter seed a root at
  \<open>(0, 0)\<close>; the second drifter then finds that root as its neighbour, settles with a
  child of it and sets \<open>done\<close>. Against the grid as it was when the step started, the
  second drifter has no neighbour: \<open>drifter_step\<close> there seeds a root and leaves
  \<open>done\<close> false.
\<close>

theorem later_drifter_sees_earlier_write:
  "ebind (Board_init 1 2 2 (4 / 5) (3 / 10) 0 (0 ## 1 / 2 ## sconst 0))
     (\<lambda>(b, g). step b g) =
     Inr (\<lparr>nb_rows = 1, nb_cols = 2,
           cells = [[Some \<lparr>hue = 300, brightness = 0\<rparr>, Some \<lparr>hue = 298, brightness = 1\<rparr>]],
           step_nb = 1, done_flag = True, drifters = [(0, 0), (0, 0)], hue_diff = 2,
           p_brightness = 80, p_down = 19 / 40, p_right = 1 / 2\<rparr>, sconst 0)
   \<and> Board_init 1 2 2 (4 / 5) (3 / 10) 0 (0 ## 1 / 2 ## sconst 0) =
     Inr (\<lparr>nb_rows = 1, nb_cols = 2, cells = [[None, None]], step_nb = 0,
           done_flag = False, drifters = [(0, 0), (0, 1)], hue_diff = 2,
           p_brightness = 80, p_down = 19 / 40, p_right = 1 / 2\<rparr>, sconst 0)
   \<and> drifter_step \<lparr>nb_rows = 1, nb_cols = 2, cells = [[None, None]], step_nb = 1,
           done_flag = False, drifters = [(0, 0), (0, 1)], hue_diff = 2,
           p_brightness = 80, p_down = 19 / 40, p_right = 1 / 2\<rparr> 0 1 (sconst 0) =
     Inr ((0, 0),
          \<lparr>nb_rows = 1, nb_cols = 2,
           cells = [[None, Some \<lparr>hue = 300, brightness = 0\<rparr>]], step_nb = 1,
           done_flag = False, drifters = [(0, 0), (0, 1)], hue_diff = 2,
           p_brightness = 80, p_down = 19 / 40, p_right = 1 / 2\<rparr>, sconst 0)"
  by (simp add: run_defs numeral_2_eq_2)

text \<open>
  Claim C3, amended. \<open>step\<close> processes the drifters in list order, and each drifter's
  update is computed on the board as the drifters before it in the same step have left
  it, so their writes to the grid are visible to it: a step whose drifters are
  \<open>ds1 @ (row, col) # ds2\<close> runs \<open>drifter_step\<close> for \<open>(row, col)\<close> on the board and the
  random source that processing \<open>ds1\<close> returned, and goes on with \<open>ds2\<close> from its result.
\<close>

theorem step_sequential:
  assumes "step b g = Inr (b', g')" and "drifters b = ds1 @ (row, col) # ds2"
  shows "\<exists>out1 b1 g1 p b2 g2 out2 b3.
           drifter_steps (b\<lparr>step_nb := step_nb b + 1\<rparr>) ds1 g = Inr (out1, b1, g1) \<and>
           drifter_step b1 row col g1 = Inr (p, b2, g2) \<and>
           drifter_steps b2 ds2 g2 = Inr (out2, b3, g') \<and>
           b' = b3\<lparr>drifters := out1 @ p # out2\<rparr>"
proof -
  let ?b = "b\<lparr>step_nb := step_nb b + 1\<rparr>"
  from assms obtain out b3 where
    all: "drifter_steps ?b (ds1 @ (row, col) # ds2) g = Inr (out, b3, g')"
    and b': "b' = b3\<lparr>drifters := out\<rparr>"
    by (auto simp: step_def Let_def ebind_eq_Inr)
  from all obtain out1 b1 g1 o2 where
    1: "drifter_steps ?b ds1 g = Inr (out1, b1, g1)"
    and 2: "drifter_steps b1 ((row, col) # ds2) g1 = Inr (o2, b3, g')" and o: "out = out1 @ o2"
    unfolding drifter_steps_append by (auto simp: ebind_eq_Inr)
  from 2 obtain p b2 g2 out2 where
    "drifter_step b1 row col g1 = Inr (p, b2, g2)"
    "drifter_steps b2 ds2 g2 = Inr (out2, b3, g')" "o2 = p # out2"
    by (auto simp: ebind_eq_Inr)
  then show ?thesis using 1 o b' by blast
qed

theorem step_sequential_witness:
  "step \<lparr>nb_rows = 1, nb_cols = 2, cells = [[None, None]], step_nb = 0,
           done_flag = False, drifters = [(0, 0), (0, 1)], hue_diff = 2,
           p_brightness = 80, p_down = 19 / 40, p_right = 1 / 2\<rparr> (sconst 0) =
     Inr (\<lparr>nb_rows = 1, nb_cols = 2,
           cells = [[Some \<lparr>hue = 300, brightness = 0\<rparr>, Some \<lparr>hue = 298, brightness = 1\<rparr>]],
           step_nb = 1, done_flag = True, drifters = [(0, 0), (0, 0)], hue_diff = 2,
           p_brightness = 80, p_down = 19 / 40, p_right = 1 / 2\<rparr>, sconst 0)
   \<and> (\<exists>p b2 g2. drifter_step
         \<lparr>nb_rows = 1, nb_cols = 2, cells = [[Some \<lparr>hue = 300, brightness = 0\<rparr>, None]],
           step_nb = 1, done_flag = False, drifters = [(0, 0), (0, 1)], hue_diff = 2,
           p_brightness = 80, p_down = 19 / 40, p_right = 1 / 2\<rparr> 0 1 (sconst 0)
         = Inr (p, b2, g2) \<and> done_flag b2)"
proof -
  let ?b = "\<lparr>nb_rows = 1, nb_cols = 2, cells = [[None, None]], step_nb = 0,
           done_flag = False, drifters = [(0, 0), (0, 1)], hue_diff = 2,
           p_brightness = 80, p_down = 19 / 40, p_right = 1 / 2\<rparr>"
  let ?b' = "\<lparr>nb_rows = 1, nb_cols = 2,
           cells = [[Some \<lparr>hue = 300, brightness = 0\<rparr>, Some \<lparr>hue = 298, brightness = 1\<rparr>]],
           step_nb = 1, done_flag = True, drifters = [(0, 0), (0, 0)], hue_diff = 2,
           p_brightness = 80, p_down = 19 / 40, p_right = 1 / 2\<rparr>"
  have st: "step ?b (sconst 0) = Inr (?b', sconst 0)"
    by (simp add: run_defs)
  have ds: "drifters ?b = [(0, 0)] @ (0, 1) # []" by simp
  have first: "drifter_steps (?b\<lparr>step_nb := step_nb ?b + 1\<rparr>) [(0, 0)] (sconst 0) =
      Inr ([(0, 0)], \<lparr>nb_rows = 1, nb_cols = 2,
           cells = [[Some \<lparr>hue = 300, brightness = 0\<rparr>, None]],
           step_nb = 1, done_flag = False, drifters = [(0, 0), (0, 1)], hue_diff = 2,
           p_brightness = 80, p_down = 19 / 40, p_right = 1 / 2\<rparr>, sconst 0)"
    by (simp add: run_defs)
  from step_sequential [OF st ds] first
  have "\<exists>p b2 g2 b3. drifter_step
         \<lparr>nb_rows = 1, nb_cols = 2, cells = [[Some \<lparr>hue = 300, brightness = 0\<rparr>, None]],
           step_nb = 1, done_flag = False, drifters = [(0, 0), (0, 1)], hue_diff = 2,
           p_brightness = 80, p_down = 19 / 40, p_right = 1 / 2\<rparr> 0 1 (sconst 0)
         = Inr (p, b2, g2) \<and> b3 = b2 \<and> ?b' = b3\<lparr>drifters := [(0, 0)] @ [p]\<rparr>"
    by auto
  then obtain p b2 g2 where
    d: "drifter_step
         \<lparr>nb_rows = 1, nb_cols = 2, cells = [[Some \<lparr>hue = 300, brightness = 0\<rparr>, None]],
           step_nb = 1, done_flag = False, drifters = [(0, 0), (0, 1)], hue_diff = 2,
           p_brightness = 80, p_down = 19 / 40, p_right = 1 / 2\<rparr> 0 1 (sconst 0)
         = Inr (p, b2, g2)" and e: "?b' = b2\<lparr>drifters := [(0, 0)] @ [p]\<rparr>"
    by blast
  from e have "done_flag ?b' = done_flag (b2\<lparr>drifters := [(0, 0)] @ [p]\<rparr>)" by simp
  then have "done_flag b2" by simp
  then show ?thesis using st d by blast
qed



text \<open>
  Claim C5. \<open>drift\<close> resolves one branch of a cascade, each test with its own draw:
  down with probability \<open>p_down\<close> when the row is not the last; else up with probability
  0.333 when the row is not 0; else right with probability \<open>p_right\<close>, and left
  otherwise, the column taken modulo \<open>nb_cols\<close>. A test whose condition on the row fails
  consumes no draw. At a position in bounds the code's test \<open>row < nb_rows - 1\<close> says
  that the row is not the last, and \<open>row > 0\<close> that it is not row 0. Every draw lies in
  the half-open interval from 0 to 1.
\<close>

theorem drift_cascade:
  assumes "nb_cols b \<noteq> 0"
  shows "drift b row col g =
     (if row < nb_rows b - 1 \<and> fst (random g) < p_down b
      then Inr ((row + 1, col), stl g)
      else
        let g1 = (if row < nb_rows b - 1 then stl g else g) in
        if row > 0 \<and> fst (random g1) < 0.333
        then Inr ((row - 1, col), stl g1)
        else
          let g2 = (if row > 0 then stl g1 else g1) in
          if fst (random g2) < p_right b
          then Inr ((row, (col + 1) mod nb_cols b), stl g2)
          else Inr ((row, (col - 1) mod nb_cols b), stl g2))
     \<and> (in_bounds b (row, col) \<longrightarrow>
          (row < nb_rows b - 1 \<longleftrightarrow> row \<noteq> nb_rows b - 1) \<and> (row > 0 \<longleftrightarrow> row \<noteq> 0))
     \<and> (\<forall>h. 0 \<le> fst (random h) \<and> fst (random h) < 1)"
proof -
  have "drift b row col g =
     (if row < nb_rows b - 1 \<and> fst (random g) < p_down b
      then Inr ((row + 1, col), stl g)
      else
        let g1 = (if row < nb_rows b - 1 then stl g else g) in
        if row > 0 \<and> fst (random g1) < 0.333
        then Inr ((row - 1, col), stl g1)
        else
          let g2 = (if row > 0 then stl g1 else g1) in
          if fst (random g2) < p_right b
          then Inr ((row, (col + 1) mod nb_cols b), stl g2)
          else Inr ((row, (col - 1) mod nb_cols b), stl g2))"
    using assms by (simp add: drift_def random_def py_mod_ok Let_def)
  moreover have "(row < nb_rows b - 1 \<longleftrightarrow> row \<noteq> nb_rows b - 1) \<and> (row > 0 \<longleftrightarrow> row \<noteq> 0)"
    if "in_bounds b (row, col)"
    using that by (auto simp: in_bounds_def)
  ultimately show ?thesis using random_range by blast
qed

theorem drift_cascade_witness:
  "nb_cols \<lparr>nb_rows = 3, nb_cols = 4, cells = [], step_nb = 0, done_flag = False,
      drifters = [], hue_diff = 2, p_brightness = 1, p_down = 1 / 4, p_right = 1 / 2\<rparr> \<noteq> 0
   \<and> in_bounds \<lparr>nb_rows = 3, nb_cols = 4, cells = [], step_nb = 0, done_flag = False,
      drifters = [], hue_diff = 2, p_brightness = 1, p_down = 1 / 4, p_right = 1 / 2\<rparr> (1, 0)
   \<and> drift \<lparr>nb_rows = 3, nb_cols = 4, cells = [], step_nb = 0, done_flag = False,
      drifters = [], hue_diff = 2, p_brightness = 1, p_down = 1 / 4, p_right = 1 / 2\<rparr>
      1 0 (1 / 2 ## 1 / 2 ## 3 / 4 ## sconst 0) = Inr ((1, 3), sconst 0)"
  using drift_cascade [of "\<lparr>nb_rows = 3, nb_cols = 4, cells = [], step_nb = 0,
      done_flag = False, drifters = [], hue_diff = 2, p_brightness = 1, p_down = 1 / 4,
      p_right = 1 / 2\<rparr>" 1 0 "1 / 2 ## 1 / 2 ## 3 / 4 ## sconst 0"]
  by (simp add: random_def in_bounds_def)

text \<open>
  Claim C6. For a spread \<open>hue_diff\<close> that is not negative, \<open>get_child\<close> returns a new
  cell whose hue is the parent's plus a drawn offset between \<open>- hue_diff\<close> and
  \<open>hue_diff\<close>, modulo 360, and whose brightness is the parent's plus 1 when the parent's
  is below 100 and the draw of \<^verbatim>\<open>random()\<close> is below \<open>p_brighter\<close>, and the parent's
  otherwise; at 100 no draw is made. The draw of \<^verbatim>\<open>random()\<close> lies in the half-open
  interval from 0 to 1, and every offset of the range is drawn by some random source.
  Cells are values: the parent is not changed.
\<close>

theorem get_child_spec:
  assumes "0 \<le> hdiff"
  shows "(\<exists>off. - hdiff \<le> off \<and> off \<le> hdiff \<and>
           off = - hdiff + fst (randbelow (2 * hdiff + 1) g) \<and>
           get_child c hdiff p g =
             Inr (\<lparr>hue = (hue c + off) mod 360,
                   brightness = (if brightness c < 100 \<and> fst (random (stl g)) < p
                                 then brightness c + 1 else brightness c)\<rparr>,
                  if brightness c < 100 then stl (stl g) else stl g))
       \<and> 0 \<le> fst (random (stl g)) \<and> fst (random (stl g)) < 1
       \<and> (\<forall>k. - hdiff \<le> k \<and> k \<le> hdiff \<longrightarrow>
             (\<exists>g0. - hdiff + fst (randbelow (2 * hdiff + 1) g0) = k))"
proof -
  have "\<exists>g0. - hdiff + fst (randbelow (2 * hdiff + 1) g0) = k"
    if "- hdiff \<le> k \<and> k \<le> hdiff" for k
  proof -
    from that have "0 \<le> k + hdiff" "k + hdiff < 2 * hdiff + 1" by simp_all
    from randbelow_onto [OF this] obtain g0 where
      "fst (randbelow (2 * hdiff + 1) g0) = k + hdiff" by blast
    then have "- hdiff + fst (randbelow (2 * hdiff + 1) g0) = k" by simp
    then show ?thesis by blast
  qed
  then show ?thesis
    using get_child_eq [OF assms, of c p g] get_child_offset [OF assms, of g]
      random_range [of "stl g"]
    by (simp add: random_def)
qed

theorem get_child_spec_witness:
  "(0::int) \<le> 2 \<and>
   get_child \<lparr>hue = 359, brightness = 99\<rparr> 2 (1 / 2) (9 / 10 ## 1 / 4 ## sconst 0) =
     Inr (\<lparr>hue = 1, brightness = 100\<rparr>, sconst 0) \<and>
   get_child \<lparr>hue = 1, brightness = 100\<rparr> 2 (1 / 2) (0 ## 1 / 4 ## sconst 0) =
     Inr (\<lparr>hue = 359, brightness = 100\<rparr>, 1 / 4 ## sconst 0) \<and>
   (\<exists>g0. - 2 + fst (randbelow (2 * 2 + 1) g0) = 1)"
proof -
  note a = get_child_spec [of 2 "9 / 10 ## 1 / 4 ## sconst 0"
      "\<lparr>hue = 359, brightness = 99\<rparr>" "1 / 2"]
  note b = get_child_spec [of 2 "0 ## 1 / 4 ## sconst 0"
      "\<lparr>hue = 1, brightness = 100\<rparr>" "1 / 2"]
  from a have "\<forall>k. - 2 \<le> k \<and> k \<le> 2 \<longrightarrow> (\<exists>g0. - 2 + fst (randbelow (2 * 2 + 1) g0) = k)"
    by simp
  then have "- 2 \<le> (1::int) \<and> (1::int) \<le> 2 \<longrightarrow>
      (\<exists>g0. - 2 + fst (randbelow (2 * 2 + 1) g0) = 1)"
    by (rule spec)
  then have "\<exists>g0. - 2 + fst (randbelow (2 * 2 + 1) g0) = 1" by simp
  moreover from a have
    "get_child \<lparr>hue = 359, brightness = 99\<rparr> 2 (1 / 2) (9 / 10 ## 1 / 4 ## sconst 0) =
       Inr (\<lparr>hue = 1, brightness = 100\<rparr>, sconst 0)"
    by (simp add: randbelow_def random_def)
  moreover from b have
    "get_child \<lparr>hue = 1, brightness = 100\<rparr> 2 (1 / 2) (0 ## 1 / 4 ## sconst 0) =
       Inr (\<lparr>hue = 359, brightness = 100\<rparr>, 1 / 4 ## sconst 0)"
    by (simp add: randbelow_def random_def)
  ultimately show ?thesis by simp
qed

text \<open>
  Claim C7. Take a board built from positive dimensions, any number of steps, and any
  prefix of the drifters of the next step: in the grid reached, which covers every moment
  at which a cell has just been written, every cell has its hue from 0 to 359 and its
  brightness from 0 to 100; and a child derived from a cell of the grid is at least as
  bright as its parent and not brighter than 100.
\<close>

theorem cells_in_range:
  assumes "0 < nr" and "0 < nc"
    and "Board_init nr nc hdiff pb db rb g0 = Inr (b0, g1)"
    and "steps n b0 g1 = Inr (b, g)"
    and "drifter_steps (b\<lparr>step_nb := step_nb b + 1\<rparr>) (take k (drifters b)) g
           = Inr (out, b', g')"
  shows "(\<forall>c \<in> set (grid_cells b').
            0 \<le> hue c \<and> hue c < 360 \<and> 0 \<le> brightness c \<and> brightness c \<le> 100)
       \<and> (\<forall>c \<in> set (grid_cells b'). \<forall>h child h'.
            get_child c (hue_diff b') (p_brightness b') h = Inr (child, h') \<longrightarrow>
            brightness c \<le> brightness child \<and> brightness child \<le> 100 \<and>
            0 \<le> hue child \<and> hue child < 360)"
proof -
  from Board_init_inv [OF assms(1,2), of hdiff pb db rb g0] assms(3)
  have "board_inv b0" by auto
  from steps_inv [OF this assms(4)] have inv: "board_inv b" by simp
  let ?b1 = "b\<lparr>step_nb := step_nb b + 1\<rparr>"
  have ok: "board_ok ?b1" using inv by (simp add: board_inv_def board_ok_def)
  have "set (take k (drifters b)) \<subseteq> set (drifters b)" by (rule set_take_subset)
  then have ib: "list_all (in_bounds ?b1) (take k (drifters b))"
    using inv by (auto simp: board_inv_def list_all_iff)
  have co: "cells_ok ?b1" using inv by (simp add: board_inv_def cells_ok_def)
  from drifter_steps_inv [OF ok ib assms(5)] co have c': "cells_ok b'" by simp
  have 1: "cell_ok c" if "c \<in> set (grid_cells b')" for c
    using grid_cells_ok [OF c' that] .
  have 2: "brightness c \<le> brightness child \<and> cell_ok child"
    if "c \<in> set (grid_cells b')"
      "get_child c (hue_diff b') (p_brightness b') h = Inr (child, h')" for c h child h'
    using get_child_cell_ok [OF that(2) 1 [OF that(1)]] by simp
  show ?thesis using 1 2 unfolding cell_ok_def by blast
qed

theorem cells_in_range_witness:
  "(0::int) < 1 \<and>
   Board_init 1 1 2 (4 / 5) (3 / 10) 0 (sconst 0) =
     Inr (\<lparr>nb_rows = 1, nb_cols = 1, cells = [[None]], step_nb = 0, done_flag = False,
           drifters = [(0, 0)], hue_diff = 2, p_brightness = 80, p_down = 19 / 40,
           p_right = 1 / 2\<rparr>, sconst 0) \<and>
   steps (Suc 0) \<lparr>nb_rows = 1, nb_cols = 1, cells = [[None]], step_nb = 0,
           done_flag = False, drifters = [(0, 0)], hue_diff = 2, p_brightness = 80,
           p_down = 19 / 40, p_right = 1 / 2\<rparr> (sconst 0) =
     Inr (\<lparr>nb_rows = 1, nb_cols = 1, cells = [[Some \<lparr>hue = 300, brightness = 0\<rparr>]],
           step_nb = 1, done_flag = False, drifters = [(0, 0)], hue_diff = 2,
           p_brightness = 80, p_down = 19 / 40, p_right = 1 / 2\<rparr>, sconst 0) \<and>
   drifter_steps \<lparr>nb_rows = 1, nb_cols = 1, cells = [[Some \<lparr>hue = 300, brightness = 0\<rparr>]],
           step_nb = 2, done_flag = False, drifters = [(0, 0)], hue_diff = 2,
           p_brightness = 80, p_down = 19 / 40, p_right = 1 / 2\<rparr> [(0, 0)] (sconst 0) =
     Inr ([(0, 0)],
          \<lparr>nb_rows = 1, nb_cols = 1, cells = [[Some \<lparr>hue = 298, brightness = 1\<rparr>]],
           step_nb = 2, done_flag = True, drifters = [(0, 0)], hue_diff = 2,
           p_brightness = 80, p_down = 19 / 40, p_right = 1 / 2\<rparr>, sconst 0) \<and>
   grid_cells \<lparr>nb_rows = 1, nb_cols = 1, cells = [[Some \<lparr>hue = 298, brightness = 1\<rparr>]],
           step_nb = 2, done_flag = True, drifters = [(0, 0)], hue_diff = 2,
           p_brightness = 80, p_down = 19 / 40, p_right = 1 / 2\<rparr>
     = [\<lparr>hue = 298, brightness = 1\<rparr>] \<and>
   get_child \<lparr>hue = 298, brightness = 1\<rparr> 2 80 (sconst 0) =
     Inr (\<lparr>hue = 296, brightness = 2\<rparr>, sconst 0) \<and>
   hue \<lparr>hue = 298, brightness = 1\<rparr> < 360 \<and>
   brightness \<lparr>hue = 298, brightness = 1\<rparr>
     \<le> brightness \<lparr>hue = 296, brightness = 2\<rparr> \<and>
   brightness \<lparr>hue = 296, brightness = 2\<rparr> \<le> 100"
proof -
  let ?b0 = "\<lparr>nb_rows = 1, nb_cols = 1, cells = [[None]], step_nb = 0, done_flag = False,
           drifters = [(0, 0)], hue_diff = 2, p_brightness = 80, p_down = 19 / 40,
           p_right = 1 / 2\<rparr>"
  let ?b1 = "\<lparr>nb_rows = 1, nb_cols = 1, cells = [[Some \<lparr>hue = 300, brightness = 0\<rparr>]],
           step_nb = 1, done_flag = False, drifters = [(0, 0)], hue_diff = 2,
           p_brightness = 80, p_down = 19 / 40, p_right = 1 / 2\<rparr>"
  let ?b2 = "\<lparr>nb_rows = 1, nb_cols = 1, cells = [[Some \<lparr>hue = 298, brightness = 1\<rparr>]],
           step_nb = 2, done_flag = True, drifters = [(0, 0)], hue_diff = 2,
           p_brightness = 80, p_down = 19 / 40, p_right = 1 / 2\<rparr>"
  have init: "Board_init 1 1 2 (4 / 5) (3 / 10) 0 (sconst 0) = Inr (?b0, sconst 0)"
    by (simp add: run_defs)
  have run: "steps (Suc 0) ?b0 (sconst 0) = Inr (?b1, sconst 0)"
    by (simp add: run_defs)
  have mid: "drifter_steps (?b1\<lparr>step_nb := step_nb ?b1 + 1\<rparr>) (take 1 (drifters ?b1)) (sconst 0)
           = Inr ([(0, 0)], ?b2, sconst 0)"
    by (simp add: run_defs)
  have gc: "grid_cells ?b2 = [\<lparr>hue = 298, brightness = 1\<rparr>]"
    by (simp add: grid_cells_def)
  have child: "get_child \<lparr>hue = 298, brightness = 1\<rparr> 2 80 (sconst 0) =
      Inr (\<lparr>hue = 296, brightness = 2\<rparr>, sconst 0)"
    by (simp add: run_defs)
  from cells_in_range [OF _ _ init run mid] gc
  have "hue \<lparr>hue = 298, brightness = 1\<rparr> < 360"
    and "\<forall>h child h'. get_child \<lparr>hue = 298, brightness = 1\<rparr> 2 80 h = Inr (child, h') \<longrightarrow>
      brightness \<lparr>hue = 298, brightness = 1\<rparr> \<le> brightness child \<and>
      brightness child \<le> 100"
    by simp_all
  with child have "hue \<lparr>hue = 298, brightness = 1\<rparr> < 360 \<and>
      brightness \<lparr>hue = 298, brightness = 1\<rparr>
        \<le> brightness \<lparr>hue = 296, brightness = 2\<rparr> \<and>
      brightness \<lparr>hue = 296, brightness = 2\<rparr> \<le> 100"
    by blast
  then show ?thesis using init run mid gc child by simp
qed

text \<open>
  Claim C8. Built from positive dimensions, a board has exactly \<open>nb_cols\<close> drifters, and
  so has every board that any number of steps returns.
\<close>

theorem drifter_count:
  assumes "0 < nr" "0 < nc"
  shows "\<exists>b0 g1. Board_init nr nc hdiff pb db rb g = Inr (b0, g1) \<and>
           nb_cols b0 = nc \<and> int (length (drifters b0)) = nc \<and>
           (\<forall>n b g'. steps n b0 g1 = Inr (b, g') \<longrightarrow>
              nb_cols b = nc \<and> int (length (drifters b)) = nc)"
proof -
  from Board_init_inv [OF assms, of hdiff pb db rb g] obtain b0 g1 where
    init: "Board_init nr nc hdiff pb db rb g = Inr (b0, g1)" and inv: "board_inv b0"
    and nc: "nb_cols b0 = nc"
    by blast
  have "nb_cols b = nc \<and> int (length (drifters b)) = nc" if "steps n b0 g1 = Inr (b, g')"
    for n b g'
    using steps_inv [OF inv that] nc by (simp add: board_inv_def same_params_def)
  then show ?thesis using init inv nc by (auto simp: board_inv_def)
qed

theorem drifter_count_witness:
  "(0::int) < 1 \<and> (0::int) < 2 \<and>
   (\<exists>b0 g1. Board_init 1 2 2 (4 / 5) (3 / 10) 0 (0 ## 1 / 2 ## sconst 0) = Inr (b0, g1) \<and>
      length (drifters b0) = 2 \<and>
      (\<exists>b g'. steps (Suc 0) b0 g1 = Inr (b, g') \<and> length (drifters b) = 2))"
proof -
  from drifter_count [of 1 2 2 "4 / 5" "3 / 10" 0 "0 ## 1 / 2 ## sconst 0"]
  obtain b0 g1 where
    init: "Board_init 1 2 2 (4 / 5) (3 / 10) 0 (0 ## 1 / 2 ## sconst 0) = Inr (b0, g1)"
    and len: "int (length (drifters b0)) = 2"
    and all: "\<forall>n b g'. steps n b0 g1 = Inr (b, g') \<longrightarrow>
                nb_cols b = 2 \<and> int (length (drifters b)) = 2"
    by auto
  from init have "\<exists>b g'. steps (Suc 0) b0 g1 = Inr (b, g')"
    by (auto simp: run_defs numeral_2_eq_2)
  then obtain b g' where st: "steps (Suc 0) b0 g1 = Inr (b, g')" by blast
  with all have "int (length (drifters b)) = 2" by blast
  then show ?thesis using init len st by auto
qed

text \<open>
  Claim C9, as stated, fails. Positive dimensions do not exclude a negative \<open>hue_diff\<close>:
  on the board of one row and one column with \<open>hue_diff = -1\<close>, the second step settles,
  and \<open>get_child\<close> calls \<^verbatim>\<open>randrange(1, 0)\<close>, which raises \<^verbatim>\<open>ValueError\<close>.
\<close>

theorem negative_hue_diff_raises:
  "ebind (Board_init 1 1 (- 1) (4 / 5) (3 / 10) 0 (sconst 0))
     (\<lambda>(b, g). steps (Suc (Suc 0)) b g) = Inl ValueError"
  by (simp add: run_defs)

text \<open>
  Claim C9, amended. On a board built from positive dimensions, any number of steps either
  returns a board whose drifters are all in bounds and of which both snapshots, the image
  with or without drifters and the text, are produced without exception; or it raises
  \<^verbatim>\<open>ValueError\<close>, and then \<open>hue_diff\<close> is negative. So with \<open>hue_diff\<close> not negative
  nothing fails, and whatever \<open>hue_diff\<close> is, no access to the grid is out of bounds.
\<close>

theorem no_runtime_error:
  assumes "0 < nr" and "0 < nc"
  shows "\<exists>b0 g1. Board_init nr nc hdiff pb db rb g = Inr (b0, g1) \<and>
           (\<forall>n. case steps n b0 g1 of
                  Inr (b, g') \<Rightarrow>
                    list_all (in_bounds b) (drifters b) \<and>
                    (\<exists>im. print_to_image b sd = Inr im) \<and> (\<exists>s. board_str b = Inr s)
                | Inl e \<Rightarrow> e = ValueError \<and> hdiff < 0)"
proof -
  from Board_init_inv [OF assms, of hdiff pb db rb g] obtain b0 g1 where
    init: "Board_init nr nc hdiff pb db rb g = Inr (b0, g1)" and inv: "board_inv b0"
    and hd: "hue_diff b0 = hdiff"
    by blast
  have "case steps n b0 g1 of
          Inr (b, g') \<Rightarrow>
            list_all (in_bounds b) (drifters b) \<and>
            (\<exists>im. print_to_image b sd = Inr im) \<and> (\<exists>s. board_str b = Inr s)
        | Inl e \<Rightarrow> e = ValueError \<and> hdiff < 0" for n
  proof (cases "steps n b0 g1")
    case (Inl e)
    then show ?thesis using steps_Inl [OF inv Inl] hd by simp
  next
    case (Inr r)
    obtain b g' where r: "r = (b, g')" by (cases r)
    from steps_inv [OF inv Inr [unfolded r]] have bi: "board_inv b" by simp
    then have ok: "board_ok b" and co: "cells_ok b" and ib: "list_all (in_bounds b) (drifters b)"
      by (simp_all add: board_inv_def)
    show ?thesis
      using Inr r ib print_to_image_total [OF ok co ib, of sd] board_str_total [OF ok]
      by simp
  qed
  then show ?thesis using init by blast
qed

theorem no_runtime_error_witness:
  "(0::int) < 1 \<and>
   (\<exists>b0 g1. Board_init 1 1 2 (4 / 5) (3 / 10) 0 (sconst 0) = Inr (b0, g1) \<and>
      (\<exists>b g'. steps (Suc (Suc 0)) b0 g1 = Inr (b, g') \<and>
         list_all (in_bounds b) (drifters b) \<and>
         (\<exists>im. print_to_image b True = Inr im) \<and> (\<exists>s. board_str b = Inr s)))"
proof -
  from no_runtime_error [of 1 1 2 "4 / 5" "3 / 10" 0 "sconst 0" True]
  obtain b0 g1 where
    init: "Board_init 1 1 2 (4 / 5) (3 / 10) 0 (sconst 0) = Inr (b0, g1)"
    and all: "\<forall>n. case steps n b0 g1 of
                  Inr (b, g') \<Rightarrow>
                    list_all (in_bounds b) (drifters b) \<and>
                    (\<exists>im. print_to_image b True = Inr im) \<and> (\<exists>s. board_str b = Inr s)
                | Inl e \<Rightarrow> e = ValueError \<and> (2::int) < 0"
    by auto
  from all have "case steps (Suc (Suc 0)) b0 g1 of
                  Inr (b, g') \<Rightarrow>
                    list_all (in_bounds b) (drifters b) \<and>
                    (\<exists>im. print_to_image b True = Inr im) \<and> (\<exists>s. board_str b = Inr s)
                | Inl e \<Rightarrow> e = ValueError \<and> (2::int) < 0"
    by (rule spec)
  then have "\<exists>b g'. steps (Suc (Suc 0)) b0 g1 = Inr (b, g') \<and>
         list_all (in_bounds b) (drifters b) \<and>
         (\<exists>im. print_to_image b True = Inr im) \<and> (\<exists>s. board_str b = Inr s)"
    by (cases "steps (Suc (Suc 0)) b0 g1") auto
  then show ?thesis using init by auto
qed



end
